theory Spec2Isabelle
  imports Main
begin

section \<open>Data model\<close>

text \<open>
  An \<^verbatim>\<open>os.Signal\<close> is an interface value; the model keeps what the package observes of
  it: its number and the text of its \<^verbatim>\<open>String()\<close> method.
\<close>

datatype signal = Signal nat string

definition os_Interrupt :: signal where
  "os_Interrupt = Signal 2 ''interrupt''"

definition syscall_SIGINT :: signal where
  "syscall_SIGINT = Signal 2 ''interrupt''"

definition syscall_SIGTERM :: signal where
  "syscall_SIGTERM = Signal 15 ''terminated''"

fun signal_String :: "signal \<Rightarrow> string" where
  "signal_String (Signal n txt) = txt"

text \<open>
  Go's \<^verbatim>\<open>error\<close> is a nullable interface: a value of type \<open>error option\<close>, \<open>None\<close> for
  \<^verbatim>\<open>nil\<close>. The errors the package meets are those of \<^verbatim>\<open>fmt.Errorf\<close>, the two
  errors of package \<^verbatim>\<open>context\<close>, and whatever a step or a caller of \<^verbatim>\<open>Shutdown\<close>
  hands in (\<open>UserError\<close>, with its message).
\<close>

datatype error = Errorf string | DeadlineExceeded | Canceled | UserError string

fun Error :: "error \<Rightarrow> string" where
  "Error (Errorf msg) = msg"
| "Error DeadlineExceeded = ''context deadline exceeded''"
| "Error Canceled = ''context canceled''"
| "Error (UserError msg) = msg"

record ExitReason =
  OsSignal :: "signal option"
  ErrStartup :: "error option"
  ErrRuntime :: "error option"
  ErrsShutdown :: "error option list"

record ExitReasonPrintable =
  pOsSignal :: string
  pErrStartup :: string
  pErrRuntime :: string
  pErrsShutdown :: "string list"

text \<open>
  \<^verbatim>\<open>ToPrintable\<close> calls \<^verbatim>\<open>e.Error()\<close> on every element of \<^verbatim>\<open>ErrsShutdown\<close> without a
  nil test; on a nil element that call panics. The loop is \<open>render_errs\<close>, with \<open>None\<close>
  for the panic.
\<close>

fun render_errs :: "error option list \<Rightarrow> string list \<Rightarrow> string list option" where
  "render_errs [] acc = Some acc"
| "render_errs (None # es) acc = None"
| "render_errs (Some e # es) acc = render_errs es (acc @ [Error e])"

definition ToPrintable :: "ExitReason \<Rightarrow> ExitReasonPrintable option" where
  "ToPrintable r =
     (case render_errs (ErrsShutdown r) [] of
        None \<Rightarrow> None
      | Some strs \<Rightarrow>
          Some \<lparr> pOsSignal = (case OsSignal r of None \<Rightarrow> [] | Some sg \<Rightarrow> signal_String sg),
                 pErrStartup = (case ErrStartup r of None \<Rightarrow> [] | Some e \<Rightarrow> Error e),
                 pErrRuntime = (case ErrRuntime r of None \<Rightarrow> [] | Some e \<Rightarrow> Error e),
                 pErrsShutdown = strs \<rparr>)"

subsection \<open>Options and configuration\<close>

text \<open>
  The payload of an option has the dynamic type \<^verbatim>\<open>any\<close>; the type assertions of
  \<^verbatim>\<open>parseOptions\<close> tell a \<^verbatim>\<open>time.Duration\<close> (a signed count of nanoseconds) and a
  \<^verbatim>\<open>[]os.Signal\<close> from everything else. The list of options holds the option values the
  pointers of the source point to.
\<close>

datatype any = Duration int | Signals "signal list" | OtherValue

record opt =
  code :: int
  payload :: any

record config =
  shutdownTimeout :: int
  startupTimeout :: int
  signals :: "signal list"

definition optionStartupTimeout :: int where
  "optionStartupTimeout = 1"

definition optionShutdownTimeout :: int where
  "optionShutdownTimeout = 2"

definition optionSignals :: int where
  "optionSignals = 10"

text \<open>
  \<^verbatim>\<open>parseOptions\<close> updates the configuration through its pointer and returns an error;
  the model returns the configuration as it stands at the return, and the error.
\<close>

fun parseOptions :: "config \<Rightarrow> opt list \<Rightarrow> config \<times> error option" where
  "parseOptions c [] = (c, None)"
| "parseOptions c (ob # opts) =
     (if code ob = optionStartupTimeout then
        (case payload ob of
           Duration v \<Rightarrow>
             if v < 1 then (c, Some (Errorf ''startup timeout must be positive''))
             else parseOptions (c\<lparr>startupTimeout := v\<rparr>) opts
         | _ \<Rightarrow> (c, Some (Errorf ''failed to cast StartupTimeout to time.Duration'')))
      else if code ob = optionShutdownTimeout then
        (case payload ob of
           Duration v \<Rightarrow>
             if v < 1 then (c, Some (Errorf ''shutdown timeout must be positive''))
             else parseOptions (c\<lparr>shutdownTimeout := v\<rparr>) opts
         | _ \<Rightarrow> (c, Some (Errorf ''failed to cast StartupTimeout to time.Duration'')))
      else if code ob = optionSignals then
        (case payload ob of
           Signals sigs \<Rightarrow> parseOptions (c\<lparr>signals := signals c @ sigs\<rparr>) opts
         | _ \<Rightarrow> (c, Some (Errorf ''failed to cast signals'')))
      else parseOptions c opts)"

definition WithStartupTimeout :: "int \<Rightarrow> opt" where
  "WithStartupTimeout d = \<lparr> code = optionStartupTimeout, payload = Duration d \<rparr>"

definition WithShutdownTimeout :: "int \<Rightarrow> opt" where
  "WithShutdownTimeout d = \<lparr> code = optionShutdownTimeout, payload = Duration d \<rparr>"

definition WithSignals :: "signal list \<Rightarrow> opt" where
  "WithSignals sigs = \<lparr> code = optionSignals, payload = Signals sigs \<rparr>"

subsection \<open>Contexts, steps and channels\<close>

text \<open>
  \<^verbatim>\<open>Start\<close> uses two kinds of context: \<^verbatim>\<open>context.Background()\<close>, which is never done,
  and a \<^verbatim>\<open>context.WithTimeout\<close> child of it, which carries its error once it is done:
  \<^verbatim>\<open>DeadlineExceeded\<close> when its timer fired first, \<^verbatim>\<open>Canceled\<close> when its cancel function
  was called first. The cancel function paired with the background context is \<^verbatim>\<open>nop\<close>.
\<close>

datatype ctx = Background | WithTimeout "error option"

fun ctx_Err :: "ctx \<Rightarrow> error option" where
  "ctx_Err Background = None"
| "ctx_Err (WithTimeout e) = e"

definition ctx_Done :: "ctx \<Rightarrow> bool" where
  "ctx_Done c = (ctx_Err c \<noteq> None)"

fun ctx_cancel :: "ctx \<Rightarrow> ctx" where
  "ctx_cancel Background = Background"
| "ctx_cancel (WithTimeout None) = WithTimeout (Some Canceled)"
| "ctx_cancel (WithTimeout (Some e)) = WithTimeout (Some e)"

fun ctx_fire :: "ctx \<Rightarrow> ctx option" where
  "ctx_fire (WithTimeout None) = Some (WithTimeout (Some DeadlineExceeded))"
| "ctx_fire _ = None"

definition mk_ctx :: "int \<Rightarrow> ctx" where
  "mk_ctx d = (if d > 0 then WithTimeout None else Background)"

text \<open>
  A step (\<^verbatim>\<open>Func\<close>) is code of the caller. The model keeps of it what it returns, as a
  function of the state of its context at the moment it returns; \<open>Blocked\<close> says that the
  step does not return while the context is in that state (a step that never returns is
  \<open>Blocked\<close> for every state).
\<close>

datatype outcome = Returns "error option" | Blocked

type_synonym Func = "ctx \<Rightarrow> outcome"

text \<open>
  A buffered channel is the list of the values it holds, oldest first. A send is possible
  while the buffer has room, a receive while it holds a value.
\<close>

definition chan_send :: "nat \<Rightarrow> 'a \<Rightarrow> 'a list \<Rightarrow> 'a list option" where
  "chan_send cap v ch = (if length ch < cap then Some (ch @ [v]) else None)"

fun chan_recv :: "'a list \<Rightarrow> ('a \<times> 'a list) option" where
  "chan_recv [] = None"
| "chan_recv (v # ch) = Some (v, ch)"

subsection \<open>The explicit shutdown request\<close>

text \<open>
  \<^verbatim>\<open>rte\<close> is a package-level channel of capacity 1. \<^verbatim>\<open>Shutdown\<close> is a \<^verbatim>\<open>select\<close> with the
  send and a \<^verbatim>\<open>default\<close> case: it sends when the buffer has room and does nothing
  otherwise.
\<close>

definition rte_cap :: nat where
  "rte_cap = 1"

definition Shutdown :: "error option \<Rightarrow> error option list \<Rightarrow> error option list" where
  "Shutdown err rte = (case chan_send rte_cap err rte of Some rte' \<Rightarrow> rte' | None \<Rightarrow> rte)"

section \<open>The orchestrator\<close>

text \<open>
  \<^verbatim>\<open>Start\<close> runs three goroutines: its own (the main one), the worker of the startup
  steps and the worker of the shutdown steps; the timers of the two timeout contexts and
  the callers of \<^verbatim>\<open>Shutdown\<close> act from outside. The model is the interleaving of their
  steps: a state holds the variables of \<^verbatim>\<open>Start\<close> and a program counter for each
  goroutine, an action says who moves, and a schedule is a list of actions. A \<^verbatim>\<open>select\<close>
  with several ready cases may take any of them: the schedule chooses.
\<close>

datatype main_pc = MStartupSelect | MAwaitTrigger | MShutdownLoop nat | MReturned

datatype st_worker_pc = StNotStarted | StHead nat | StRun nat | StSend error | StCancel | StDone

datatype sd_worker_pc = SdNotStarted | SdHead nat | SdRun nat | SdSend nat "error option" | SdDone

text \<open>
  The last five fields are not variables of the program: they log which steps were
  invoked, what they returned, and what the shutdown loop received, in the order in which
  it happened.
\<close>

record state =
  cfg :: config
  er :: ExitReason
  fnErrs :: "error option list"
  rte :: "error option list"
  stCtx :: ctx
  sdCtx :: ctx
  main :: main_pc
  stWorker :: st_worker_pc
  sdWorker :: sd_worker_pc
  st_invoked :: "nat list"
  st_returned :: "error option list"
  sd_invoked :: "nat list"
  sd_returned :: "error option list"
  sd_received :: "error option list"

datatype action =
    MainRecv
  | MainDone
  | MainSignal signal
  | StWorker
  | SdWorker
  | FireStartup
  | FireShutdown
  | CallShutdown "error option"

definition fnErrs_cap :: nat where
  "fnErrs_cap = 1"

definition er0 :: ExitReason where
  "er0 = \<lparr> OsSignal = None, ErrStartup = None, ErrRuntime = None, ErrsShutdown = [] \<rparr>"

definition default_config :: config where
  "default_config =
     \<lparr> shutdownTimeout = 0, startupTimeout = 0,
       signals = [os_Interrupt, syscall_SIGINT, syscall_SIGTERM] \<rparr>"

subsection \<open>The main goroutine\<close>

text \<open>\<^verbatim>\<open>return er\<close> after the shutdown loop; the deferred \<^verbatim>\<open>sdCancel()\<close> runs.\<close>

definition Start_return :: "state \<Rightarrow> state" where
  "Start_return s = s\<lparr> main := MReturned, sdCtx := ctx_cancel (sdCtx s) \<rparr>"

text \<open>The head of \<^verbatim>\<open>for range shutdownFns\<close>, before iteration \<open>n\<close>.\<close>

definition shutdown_loop :: "Func list \<Rightarrow> nat \<Rightarrow> state \<Rightarrow> state" where
  "shutdown_loop shutdownFns n s =
     (if n < length shutdownFns then s\<lparr> main := MShutdownLoop n \<rparr> else Start_return s)"

text \<open>
  After the first \<^verbatim>\<open>select\<close>: \<^verbatim>\<open>stCancel()\<close>, then the early return when
  \<^verbatim>\<open>er.ErrStartup != nil\<close>, else the registration of the signal listener.
\<close>

definition after_startup :: "state \<Rightarrow> state" where
  "after_startup s =
     (let s1 = s\<lparr> stCtx := ctx_cancel (stCtx s) \<rparr> in
      if ErrStartup (er s1) \<noteq> None then s1\<lparr> main := MReturned \<rparr>
      else s1\<lparr> main := MAwaitTrigger \<rparr>)"

text \<open>
  After the second \<^verbatim>\<open>select\<close>: the shutdown context is made, the shutdown worker is
  started, and the loop is entered.
\<close>

definition begin_shutdown :: "Func list \<Rightarrow> state \<Rightarrow> state" where
  "begin_shutdown shutdownFns s =
     shutdown_loop shutdownFns 0
       (s\<lparr> sdCtx := mk_ctx (shutdownTimeout (cfg s)), sdWorker := SdHead 0 \<rparr>)"

text \<open>The receive case of the \<^verbatim>\<open>select\<close> the main goroutine is waiting in.\<close>

definition main_recv :: "Func list \<Rightarrow> state \<Rightarrow> state option" where
  "main_recv shutdownFns s =
     (case main s of
        MStartupSelect \<Rightarrow>
          (case chan_recv (fnErrs s) of
             None \<Rightarrow> None
           | Some (e, ch) \<Rightarrow>
               Some (after_startup (s\<lparr> er := (er s)\<lparr> ErrStartup := e \<rparr>, fnErrs := ch \<rparr>)))
      | MAwaitTrigger \<Rightarrow>
          (case chan_recv (rte s) of
             None \<Rightarrow> None
           | Some (e, ch) \<Rightarrow>
               Some (begin_shutdown shutdownFns
                       (s\<lparr> er := (er s)\<lparr> ErrRuntime := e \<rparr>, rte := ch \<rparr>)))
      | MShutdownLoop n \<Rightarrow>
          (case chan_recv (fnErrs s) of
             None \<Rightarrow> None
           | Some (e, ch) \<Rightarrow>
               Some (shutdown_loop shutdownFns (Suc n)
                       (s\<lparr> er := (if e \<noteq> None
                                   then (er s)\<lparr> ErrsShutdown := ErrsShutdown (er s) @ [e] \<rparr>
                                   else er s),
                            fnErrs := ch,
                            sd_received := sd_received s @ [e] \<rparr>)))
      | MReturned \<Rightarrow> None)"

text \<open>The \<^verbatim>\<open>Done()\<close> case of the first and of the third \<^verbatim>\<open>select\<close>.\<close>

definition main_done :: "state \<Rightarrow> state option" where
  "main_done s =
     (case main s of
        MStartupSelect \<Rightarrow>
          (if ctx_Done (stCtx s)
           then Some (after_startup (s\<lparr> er := (er s)\<lparr> ErrStartup := ctx_Err (stCtx s) \<rparr> \<rparr>))
           else None)
      | MShutdownLoop n \<Rightarrow>
          (if ctx_Done (sdCtx s)
           then Some (Start_return
                        (s\<lparr> er := (er s)\<lparr> ErrsShutdown :=
                                            ErrsShutdown (er s) @ [ctx_Err (sdCtx s)] \<rparr> \<rparr>))
           else None)
      | _ \<Rightarrow> None)"

text \<open>
  The \<^verbatim>\<open>osSig\<close> case of the second \<^verbatim>\<open>select\<close>: one of the signals given to
  \<^verbatim>\<open>signal.Notify\<close> is delivered and received.
\<close>

definition main_signal :: "Func list \<Rightarrow> signal \<Rightarrow> state \<Rightarrow> state option" where
  "main_signal shutdownFns sg s =
     (case main s of
        MAwaitTrigger \<Rightarrow>
          (if sg \<in> set (signals (cfg s))
           then Some (begin_shutdown shutdownFns (s\<lparr> er := (er s)\<lparr> OsSignal := Some sg \<rparr> \<rparr>))
           else None)
      | _ \<Rightarrow> None)"

subsection \<open>The workers\<close>

text \<open>
  The startup worker: the steps in turn; the first non-nil error is sent, \<^verbatim>\<open>stCancel()\<close>
  is called and the worker ends; after the last step \<^verbatim>\<open>nil\<close> is sent.
\<close>

definition st_worker :: "Func list \<Rightarrow> state \<Rightarrow> state option" where
  "st_worker startupFns s =
     (case stWorker s of
        StHead i \<Rightarrow>
          (if i < length startupFns
           then Some (s\<lparr> stWorker := StRun i, st_invoked := st_invoked s @ [i] \<rparr>)
           else (case chan_send fnErrs_cap None (fnErrs s) of
                   None \<Rightarrow> None
                 | Some ch \<Rightarrow> Some (s\<lparr> fnErrs := ch, stWorker := StDone \<rparr>)))
      | StRun i \<Rightarrow>
          (if i < length startupFns
           then (case (startupFns ! i) (stCtx s) of
                   Blocked \<Rightarrow> None
                 | Returns None \<Rightarrow>
                     Some (s\<lparr> stWorker := StHead (Suc i),
                              st_returned := st_returned s @ [None] \<rparr>)
                 | Returns (Some e) \<Rightarrow>
                     Some (s\<lparr> stWorker := StSend e,
                              st_returned := st_returned s @ [Some e] \<rparr>))
           else None)
      | StSend e \<Rightarrow>
          (case chan_send fnErrs_cap (Some e) (fnErrs s) of
             None \<Rightarrow> None
           | Some ch \<Rightarrow> Some (s\<lparr> fnErrs := ch, stWorker := StCancel \<rparr>))
      | StCancel \<Rightarrow> Some (s\<lparr> stCtx := ctx_cancel (stCtx s), stWorker := StDone \<rparr>)
      | _ \<Rightarrow> None)"

text \<open>
  The shutdown worker: one goroutine that calls the steps in turn and sends what each
  returns before it calls the next.
\<close>

definition sd_worker :: "Func list \<Rightarrow> state \<Rightarrow> state option" where
  "sd_worker shutdownFns s =
     (case sdWorker s of
        SdHead i \<Rightarrow>
          (if i < length shutdownFns
           then Some (s\<lparr> sdWorker := SdRun i, sd_invoked := sd_invoked s @ [i] \<rparr>)
           else Some (s\<lparr> sdWorker := SdDone \<rparr>))
      | SdRun i \<Rightarrow>
          (if i < length shutdownFns
           then (case (shutdownFns ! i) (sdCtx s) of
                   Blocked \<Rightarrow> None
                 | Returns e \<Rightarrow>
                     Some (s\<lparr> sdWorker := SdSend i e,
                              sd_returned := sd_returned s @ [e] \<rparr>))
           else None)
      | SdSend i e \<Rightarrow>
          (case chan_send fnErrs_cap e (fnErrs s) of
             None \<Rightarrow> None
           | Some ch \<Rightarrow> Some (s\<lparr> fnErrs := ch, sdWorker := SdHead (Suc i) \<rparr>))
      | _ \<Rightarrow> None)"

subsection \<open>Steps and runs\<close>

definition Start_step :: "Func list \<Rightarrow> Func list \<Rightarrow> action \<Rightarrow> state \<Rightarrow> state option" where
  "Start_step startupFns shutdownFns a s =
     (case a of
        MainRecv \<Rightarrow> main_recv shutdownFns s
      | MainDone \<Rightarrow> main_done s
      | MainSignal sg \<Rightarrow> main_signal shutdownFns sg s
      | StWorker \<Rightarrow> st_worker startupFns s
      | SdWorker \<Rightarrow> sd_worker shutdownFns s
      | FireStartup \<Rightarrow>
          (case ctx_fire (stCtx s) of None \<Rightarrow> None | Some c \<Rightarrow> Some (s\<lparr> stCtx := c \<rparr>))
      | FireShutdown \<Rightarrow>
          (case ctx_fire (sdCtx s) of None \<Rightarrow> None | Some c \<Rightarrow> Some (s\<lparr> sdCtx := c \<rparr>))
      | CallShutdown e \<Rightarrow> Some (s\<lparr> rte := Shutdown e (rte s) \<rparr>))"

text \<open>
  A schedule runs from a state as long as each of its actions is possible; \<open>None\<close> says
  that some action of the schedule was not possible when its turn came.
\<close>

fun Start_exec :: "Func list \<Rightarrow> Func list \<Rightarrow> action list \<Rightarrow> state \<Rightarrow> state option" where
  "Start_exec startupFns shutdownFns [] s = Some s"
| "Start_exec startupFns shutdownFns (a # sched) s =
     (case Start_step startupFns shutdownFns a s of
        None \<Rightarrow> None
      | Some s' \<Rightarrow> Start_exec startupFns shutdownFns sched s')"

text \<open>
  The state in which the interleaving begins: the options are resolved; on an error
  \<^verbatim>\<open>Start\<close> has returned already, otherwise the startup context is made, the startup
  worker is started and the main goroutine waits in the first \<^verbatim>\<open>select\<close>. \<open>rte0\<close> is what
  the package-level channel holds when \<^verbatim>\<open>Start\<close> is called.
\<close>

definition Start_init :: "opt list \<Rightarrow> error option list \<Rightarrow> state" where
  "Start_init opts rte0 =
     (case parseOptions default_config opts of
        (c, Some e) \<Rightarrow>
          \<lparr> cfg = c, er = er0\<lparr> ErrStartup := Some e \<rparr>, fnErrs = [], rte = rte0,
            stCtx = Background, sdCtx = Background, main = MReturned,
            stWorker = StNotStarted, sdWorker = SdNotStarted,
            st_invoked = [], st_returned = [], sd_invoked = [], sd_returned = [],
            sd_received = [] \<rparr>
      | (c, None) \<Rightarrow>
          \<lparr> cfg = c, er = er0, fnErrs = [], rte = rte0,
            stCtx = mk_ctx (startupTimeout c), sdCtx = Background, main = MStartupSelect,
            stWorker = StHead 0, sdWorker = SdNotStarted,
            st_invoked = [], st_returned = [], sd_invoked = [], sd_returned = [],
            sd_received = [] \<rparr>)"

definition Start :: "Func list \<Rightarrow> Func list \<Rightarrow> opt list \<Rightarrow> error option list \<Rightarrow>
    action list \<Rightarrow> state option" where
  "Start startupFns shutdownFns opts rte0 sched =
     Start_exec startupFns shutdownFns sched (Start_init opts rte0)"

section \<open>The fan-out helper\<close>

text \<open>
  \<^verbatim>\<open>Multi(fns...)\<close> returns a step. A call of that step starts one goroutine for each of
  the functions, each of which sends what its function returns into \<^verbatim>\<open>errCh\<close> (of
  capacity \<^verbatim>\<open>len(fns)\<close>), and then runs \<^verbatim>\<open>len(fns)\<close> times a \<^verbatim>\<open>select\<close> between the
  context and \<^verbatim>\<open>errCh\<close>. What the call returns depends on the interleaving, so the model
  is again a machine run by a schedule. The context belongs to the caller: it may be
  cancelled, or its timer may fire, at any moment of the call.
\<close>

datatype multi_worker = MwRun | MwSend "error option" | MwDone

datatype multi_main = MultiLoop nat | MultiReturned "error option"

text \<open>
  \<open>completed\<close>, \<open>reported\<close> and \<open>received\<close> are logs: the goroutines in the order in
  which they sent, the values they sent, and the values the loop has received.
\<close>

record multi_state =
  mctx :: ctx
  errCh :: "error option list"
  workers :: "multi_worker list"
  err :: "error option"
  mmain :: multi_main
  completed :: "nat list"
  reported :: "error option list"
  received :: "error option list"

datatype multi_action = MultiRecv | MultiDone | MultiWorker nat | CtxCancel | CtxFire

text \<open>The head of \<^verbatim>\<open>for range len(fns)\<close>, before iteration \<open>n\<close>; after the loop, \<^verbatim>\<open>return err\<close>.\<close>

definition multi_loop :: "Func list \<Rightarrow> nat \<Rightarrow> multi_state \<Rightarrow> multi_state" where
  "multi_loop fns n s =
     (if n < length fns then s\<lparr> mmain := MultiLoop n \<rparr>
      else s\<lparr> mmain := MultiReturned (err s) \<rparr>)"

definition multi_recv :: "Func list \<Rightarrow> multi_state \<Rightarrow> multi_state option" where
  "multi_recv fns s =
     (case mmain s of
        MultiLoop n \<Rightarrow>
          (case chan_recv (errCh s) of
             None \<Rightarrow> None
           | Some (e, ch) \<Rightarrow>
               Some (multi_loop fns (Suc n)
                       (s\<lparr> errCh := ch,
                            err := (if err s = None \<and> e \<noteq> None then e else err s),
                            received := received s @ [e] \<rparr>)))
      | MultiReturned r \<Rightarrow> None)"

definition multi_done :: "multi_state \<Rightarrow> multi_state option" where
  "multi_done s =
     (case mmain s of
        MultiLoop n \<Rightarrow>
          (if ctx_Done (mctx s) then Some (s\<lparr> mmain := MultiReturned (ctx_Err (mctx s)) \<rparr>)
           else None)
      | MultiReturned r \<Rightarrow> None)"

definition multi_worker_step :: "Func list \<Rightarrow> nat \<Rightarrow> multi_state \<Rightarrow> multi_state option" where
  "multi_worker_step fns i s =
     (if i < length fns \<and> i < length (workers s) then
        (case workers s ! i of
           MwRun \<Rightarrow>
             (case (fns ! i) (mctx s) of
                Blocked \<Rightarrow> None
              | Returns e \<Rightarrow> Some (s\<lparr> workers := (workers s)[i := MwSend e] \<rparr>))
         | MwSend e \<Rightarrow>
             (case chan_send (length fns) e (errCh s) of
                None \<Rightarrow> None
              | Some ch \<Rightarrow>
                  Some (s\<lparr> errCh := ch, workers := (workers s)[i := MwDone],
                           completed := completed s @ [i], reported := reported s @ [e] \<rparr>))
         | MwDone \<Rightarrow> None)
      else None)"

definition Multi_step :: "Func list \<Rightarrow> multi_action \<Rightarrow> multi_state \<Rightarrow> multi_state option" where
  "Multi_step fns a s =
     (case a of
        MultiRecv \<Rightarrow> multi_recv fns s
      | MultiDone \<Rightarrow> multi_done s
      | MultiWorker i \<Rightarrow> multi_worker_step fns i s
      | CtxCancel \<Rightarrow> Some (s\<lparr> mctx := ctx_cancel (mctx s) \<rparr>)
      | CtxFire \<Rightarrow>
          (case ctx_fire (mctx s) of None \<Rightarrow> None | Some c \<Rightarrow> Some (s\<lparr> mctx := c \<rparr>)))"

fun Multi_exec :: "Func list \<Rightarrow> multi_action list \<Rightarrow> multi_state \<Rightarrow> multi_state option" where
  "Multi_exec fns [] s = Some s"
| "Multi_exec fns (a # sched) s =
     (case Multi_step fns a s of None \<Rightarrow> None | Some s' \<Rightarrow> Multi_exec fns sched s')"

text \<open>The state after the goroutines have been started, at the head of the loop.\<close>

definition Multi_init :: "Func list \<Rightarrow> ctx \<Rightarrow> multi_state" where
  "Multi_init fns c =
     multi_loop fns 0
       \<lparr> mctx = c, errCh = [], workers = replicate (length fns) MwRun, err = None,
         mmain = MultiLoop 0, completed = [], reported = [], received = [] \<rparr>"

definition Multi :: "Func list \<Rightarrow> ctx \<Rightarrow> multi_action list \<Rightarrow> multi_state option" where
  "Multi fns c sched = Multi_exec fns sched (Multi_init fns c)"

text \<open>The first non-nil error of a list of results.\<close>

fun first_error :: "error option list \<Rightarrow> error option" where
  "first_error [] = None"
| "first_error (None # es) = first_error es"
| "first_error (Some e # es) = Some e"

section \<open>Invariants of the orchestrator\<close>

text \<open>
  The startup worker calls the steps in declaration order, one after the other, and stops
  at the first non-nil result: only the last logged result can be non-nil.
\<close>

definition st_log_inv :: "Func list \<Rightarrow> state \<Rightarrow> bool" where
  "st_log_inv st s \<longleftrightarrow>
     st_invoked s = [0..<length (st_invoked s)] \<and>
     (\<forall>e \<in> set (butlast (st_returned s)). e = None) \<and>
     (case stWorker s of
        StNotStarted \<Rightarrow> st_invoked s = [] \<and> st_returned s = []
      | StHead i \<Rightarrow>
          i \<le> length st \<and> length (st_invoked s) = i \<and> length (st_returned s) = i \<and>
          (\<forall>e \<in> set (st_returned s). e = None)
      | StRun i \<Rightarrow>
          i < length st \<and> length (st_invoked s) = Suc i \<and> length (st_returned s) = i \<and>
          (\<forall>e \<in> set (st_returned s). e = None)
      | StSend e \<Rightarrow>
          length (st_invoked s) = length (st_returned s) \<and> st_returned s \<noteq> [] \<and>
          last (st_returned s) = Some e
      | StCancel \<Rightarrow>
          length (st_invoked s) = length (st_returned s) \<and> st_returned s \<noteq> [] \<and>
          last (st_returned s) \<noteq> None
      | StDone \<Rightarrow>
          length (st_invoked s) = length (st_returned s) \<and>
          ((st_returned s \<noteq> [] \<and> last (st_returned s) \<noteq> None) \<or>
           (length (st_returned s) = length st \<and> (\<forall>e \<in> set (st_returned s). e = None))))"

text \<open>
  The shutdown worker calls the steps in declaration order, one after the other; every
  logged result is what the step of that position returned.
\<close>

definition sd_log_inv :: "Func list \<Rightarrow> state \<Rightarrow> bool" where
  "sd_log_inv sd s \<longleftrightarrow>
     sd_invoked s = [0..<length (sd_invoked s)] \<and>
     (\<forall>i < length (sd_returned s). \<exists>c. (sd ! i) c = Returns (sd_returned s ! i)) \<and>
     (main s = MStartupSelect \<or> main s = MAwaitTrigger \<longrightarrow> sdWorker s = SdNotStarted) \<and>
     (case sdWorker s of
        SdNotStarted \<Rightarrow> sd_invoked s = [] \<and> sd_returned s = []
      | SdHead i \<Rightarrow> i \<le> length sd \<and> length (sd_invoked s) = i \<and> length (sd_returned s) = i
      | SdRun i \<Rightarrow>
          i < length sd \<and> length (sd_invoked s) = Suc i \<and> length (sd_returned s) = i
      | SdSend i e \<Rightarrow>
          i < length sd \<and> length (sd_invoked s) = Suc i \<and> length (sd_returned s) = Suc i \<and>
          last (sd_returned s) = e
      | SdDone \<Rightarrow> length (sd_invoked s) = length sd \<and> length (sd_returned s) = length sd)"

text \<open>What the startup worker has sent into \<^verbatim>\<open>fnErrs\<close> so far.\<close>

definition last_result :: "error option list \<Rightarrow> error option" where
  "last_result rs = (if rs = [] then None else last rs)"

definition st_sent :: "state \<Rightarrow> error option list" where
  "st_sent s =
     (if stWorker s = StCancel \<or> stWorker s = StDone then [last_result (st_returned s)] else [])"

text \<open>What the shutdown worker holds, returned by a step and not yet sent.\<close>

definition sd_pending :: "state \<Rightarrow> error option list" where
  "sd_pending s = (case sdWorker s of SdSend i e \<Rightarrow> [e] | _ \<Rightarrow> [])"

definition non_nil :: "error option list \<Rightarrow> error option list" where
  "non_nil rs = filter (\<lambda>e. e \<noteq> None) rs"

text \<open>
  The startup phase: while the main goroutine waits in the first \<^verbatim>\<open>select\<close>, \<^verbatim>\<open>fnErrs\<close>
  holds what the startup worker has sent; past it, a nil startup error means that the
  worker has ended without an error, and without a startup timeout the startup error is
  the result the worker sent.
\<close>

definition startup_inv :: "state \<Rightarrow> bool" where
  "startup_inv s \<longleftrightarrow>
     (main s = MStartupSelect \<longrightarrow>
        stWorker s \<noteq> StNotStarted \<and> er s = er0 \<and> fnErrs s = st_sent s) \<and>
     (main s = MAwaitTrigger \<or> (\<exists>n. main s = MShutdownLoop n) \<longrightarrow>
        stWorker s = StDone \<and> ErrStartup (er s) = None) \<and>
     (main s \<noteq> MStartupSelect \<and> stWorker s \<noteq> StDone \<longrightarrow> ErrStartup (er s) \<noteq> None) \<and>
     (main s \<noteq> MStartupSelect \<and> (\<exists>e \<in> set (st_returned s). e \<noteq> None) \<longrightarrow>
        ErrStartup (er s) \<noteq> None) \<and>
     (main s \<noteq> MStartupSelect \<and> stWorker s \<noteq> StNotStarted \<and> stCtx s = Background \<longrightarrow>
        ErrStartup (er s) = last_result (st_returned s)) \<and>
     (startupTimeout (cfg s) \<le> 0 \<longrightarrow> stCtx s = Background)"


text \<open>
  The trigger: before the shutdown worker is started the exit reason holds nothing but,
  possibly, the startup error; once it is started, the startup error is nil.
\<close>

definition trigger_inv :: "Func list \<Rightarrow> state \<Rightarrow> bool" where
  "trigger_inv sd s \<longleftrightarrow>
     (main s = MAwaitTrigger \<longrightarrow> er s = er0 \<and> fnErrs s = []) \<and>
     (\<forall>n. main s = MShutdownLoop n \<longrightarrow> sdWorker s \<noteq> SdNotStarted \<and> n < length sd) \<and>
     (sdWorker s = SdNotStarted \<longrightarrow>
        OsSignal (er s) = None \<and> ErrRuntime (er s) = None \<and> ErrsShutdown (er s) = [] \<and>
        sd_received s = []) \<and>
     (sdWorker s \<noteq> SdNotStarted \<longrightarrow> ErrStartup (er s) = None) \<and>
     (main s = MReturned \<and> sdWorker s = SdNotStarted \<longrightarrow> ErrStartup (er s) \<noteq> None) \<and>
     (OsSignal (er s) = None \<or> ErrRuntime (er s) = None)"

text \<open>
  The shutdown phase: the results of the steps are, in order, those the loop has received,
  the one in the channel and the one the worker is about to send; the loop has collected
  the non-nil ones; \<^verbatim>\<open>Start\<close> returns after as many receptions as there are steps, or
  after the timeout.
\<close>

definition shutdown_inv :: "Func list \<Rightarrow> state \<Rightarrow> bool" where
  "shutdown_inv sd s \<longleftrightarrow>
     (sdWorker s \<noteq> SdNotStarted \<longrightarrow>
        sd_returned s = sd_received s @ fnErrs s @ sd_pending s) \<and>
     (\<forall>n. main s = MShutdownLoop n \<longrightarrow>
        sdWorker s \<noteq> SdNotStarted \<and> n = length (sd_received s) \<and> n < length sd \<and>
        ErrsShutdown (er s) = non_nil (sd_received s) \<and>
        (ctx_Err (sdCtx s) = None \<or> ctx_Err (sdCtx s) = Some DeadlineExceeded)) \<and>
     (main s = MReturned \<and> sdWorker s \<noteq> SdNotStarted \<longrightarrow>
        (length (sd_received s) = length sd \<and>
         ErrsShutdown (er s) = non_nil (sd_received s)) \<or>
        (length (sd_received s) < length sd \<and>
         ErrsShutdown (er s) = non_nil (sd_received s) @ [Some DeadlineExceeded]))"

definition Start_inv :: "Func list \<Rightarrow> Func list \<Rightarrow> state \<Rightarrow> bool" where
  "Start_inv st sd s \<longleftrightarrow>
     st_log_inv st s \<and> sd_log_inv sd s \<and> startup_inv s \<and> trigger_inv sd s \<and>
     shutdown_inv sd s"

text \<open>\<^verbatim>\<open>Start\<close> has returned from the resolution of its options, before any goroutine.\<close>

definition never_started :: "state \<Rightarrow> bool" where
  "never_started s \<longleftrightarrow>
     main s = MReturned \<and> stWorker s = StNotStarted \<and> sdWorker s = SdNotStarted"

section \<open>Invariants of the fan-out helper\<close>

text \<open>
  Each goroutine sends once; what has been sent is what the loop has received followed by
  what the channel holds; the loop keeps the first non-nil error of what it has received,
  and the call has returned either after as many receptions as there are functions, or
  with the error of a context that is done.
\<close>

definition multi_inv :: "Func list \<Rightarrow> multi_state \<Rightarrow> bool" where
  "multi_inv fns s \<longleftrightarrow>
     length (workers s) = length fns \<and>
     length (completed s) = length (reported s) \<and>
     distinct (completed s) \<and>
     (\<forall>i. i \<in> set (completed s) \<longleftrightarrow> i < length fns \<and> workers s ! i = MwDone) \<and>
     reported s = received s @ errCh s \<and>
     (\<forall>n. mmain s = MultiLoop n \<longrightarrow>
        n = length (received s) \<and> n < length fns \<and> err s = first_error (received s)) \<and>
     (\<forall>r. mmain s = MultiReturned r \<longrightarrow>
        (length (received s) = length fns \<and> r = first_error (received s)) \<or>
        (ctx_Done (mctx s) \<and> r = ctx_Err (mctx s)))"

text \<open>
  While the context is not done it is the one the call was given, and every value sent is
  what the function of that goroutine returns under it.
\<close>

definition multi_vals :: "Func list \<Rightarrow> ctx \<Rightarrow> multi_state \<Rightarrow> bool" where
  "multi_vals fns c0 s \<longleftrightarrow>
     (\<not> ctx_Done (mctx s) \<longrightarrow>
        mctx s = c0 \<and>
        (\<forall>i < length fns. \<forall>e. workers s ! i = MwSend e \<longrightarrow> (fns ! i) c0 = Returns e) \<and>
        (\<forall>k < length (reported s). (fns ! (completed s ! k)) c0 = Returns (reported s ! k)))"

text \<open>
  A measure of the work a call of the fan-out step still has to do: it decreases with
  every step of a goroutine and with every reception.
\<close>

fun worker_weight :: "multi_worker \<Rightarrow> nat" where
  "worker_weight MwRun = 3"
| "worker_weight (MwSend e) = 2"
| "worker_weight MwDone = 0"

definition multi_measure :: "multi_state \<Rightarrow> nat" where
  "multi_measure s = sum_list (map worker_weight (workers s)) + length (errCh s)"

section \<open>Reasoning about runs\<close>

text \<open>A property kept by every step holds after every run.\<close>

lemma Start_exec_invariant:
  assumes "Start_exec st sd sched s = Some s'" and "P s"
    and "\<And>a s s'. P s \<Longrightarrow> Start_step st sd a s = Some s' \<Longrightarrow> P s'"
  shows "P s'"
  using assms(1,2)
proof (induction sched arbitrary: s)
  case Nil
  then show ?case by simp
next
  case (Cons a sched)
  then show ?case by (auto split: option.splits intro: assms(3))
qed

lemma chan_recv_Some [simp]: "chan_recv ch = Some (v, r) \<longleftrightarrow> ch = v # r"
  by (cases ch) auto

lemma chan_recv_None [simp]: "chan_recv ch = None \<longleftrightarrow> ch = []"
  by (cases ch) auto

lemma main_recv_cases:
  assumes "main_recv sd s = Some s'"
  obtains
    (startup_nil) ch where "main s = MStartupSelect" "fnErrs s = None # ch"
      "s' = s\<lparr> er := (er s)\<lparr> ErrStartup := None \<rparr>, fnErrs := ch,
               stCtx := ctx_cancel (stCtx s), main := MAwaitTrigger \<rparr>"
  | (startup_err) e ch where "main s = MStartupSelect" "fnErrs s = Some e # ch"
      "s' = s\<lparr> er := (er s)\<lparr> ErrStartup := Some e \<rparr>, fnErrs := ch,
               stCtx := ctx_cancel (stCtx s), main := MReturned \<rparr>"
  | (trigger_loop) e ch where "main s = MAwaitTrigger" "rte s = e # ch" "0 < length sd"
      "s' = s\<lparr> er := (er s)\<lparr> ErrRuntime := e \<rparr>, rte := ch,
               sdCtx := mk_ctx (shutdownTimeout (cfg s)), sdWorker := SdHead 0,
               main := MShutdownLoop 0 \<rparr>"
  | (trigger_ret) e ch where "main s = MAwaitTrigger" "rte s = e # ch" "length sd = 0"
      "s' = s\<lparr> er := (er s)\<lparr> ErrRuntime := e \<rparr>, rte := ch,
               sdCtx := ctx_cancel (mk_ctx (shutdownTimeout (cfg s))), sdWorker := SdHead 0,
               main := MReturned \<rparr>"
  | (loop_next) n e ch where "main s = MShutdownLoop n" "fnErrs s = e # ch" "Suc n < length sd"
      "s' = s\<lparr> er := (if e \<noteq> None then (er s)\<lparr> ErrsShutdown := ErrsShutdown (er s) @ [e] \<rparr>
                        else er s),
               fnErrs := ch, sd_received := sd_received s @ [e], main := MShutdownLoop (Suc n) \<rparr>"
  | (loop_ret) n e ch where "main s = MShutdownLoop n" "fnErrs s = e # ch" "\<not> Suc n < length sd"
      "s' = s\<lparr> er := (if e \<noteq> None then (er s)\<lparr> ErrsShutdown := ErrsShutdown (er s) @ [e] \<rparr>
                        else er s),
               fnErrs := ch, sd_received := sd_received s @ [e], main := MReturned,
               sdCtx := ctx_cancel (sdCtx s) \<rparr>"
proof (cases "main s")
  case MStartupSelect
  with assms show ?thesis
    by (cases "fnErrs s"; cases "hd (fnErrs s)")
       (auto simp: main_recv_def after_startup_def Let_def intro: startup_nil startup_err)
next
  case MAwaitTrigger
  with assms show ?thesis
    by (cases "rte s"; cases "0 < length sd")
       (auto simp: main_recv_def begin_shutdown_def shutdown_loop_def Start_return_def
          intro: trigger_loop trigger_ret)
next
  case (MShutdownLoop n)
  with assms show ?thesis
    by (cases "fnErrs s"; cases "Suc n < length sd")
       (auto simp: main_recv_def shutdown_loop_def Start_return_def
          intro: loop_next loop_ret)
next
  case MReturned
  with assms show ?thesis by (simp add: main_recv_def)
qed


lemma main_done_cases:
  assumes "main_done s = Some s'"
  obtains
    (startup_done) e where "main s = MStartupSelect" "ctx_Err (stCtx s) = Some e"
      "s' = s\<lparr> er := (er s)\<lparr> ErrStartup := Some e \<rparr>, stCtx := ctx_cancel (stCtx s),
               main := MReturned \<rparr>"
  | (loop_done) n e where "main s = MShutdownLoop n" "ctx_Err (sdCtx s) = Some e"
      "s' = s\<lparr> er := (er s)\<lparr> ErrsShutdown := ErrsShutdown (er s) @ [Some e] \<rparr>,
               main := MReturned, sdCtx := ctx_cancel (sdCtx s) \<rparr>"
proof (cases "main s")
  case MStartupSelect
  with assms show ?thesis
    by (cases "ctx_Err (stCtx s)")
       (auto simp: main_done_def after_startup_def ctx_Done_def Let_def intro: startup_done)
next
  case (MShutdownLoop n)
  with assms show ?thesis
    by (cases "ctx_Err (sdCtx s)")
       (auto simp: main_done_def Start_return_def ctx_Done_def intro: loop_done)
qed (use assms in \<open>simp_all add: main_done_def\<close>)

lemma main_signal_cases:
  assumes "main_signal sd sg s = Some s'"
  obtains
    (signal_loop) "main s = MAwaitTrigger" "sg \<in> set (signals (cfg s))" "0 < length sd"
      "s' = s\<lparr> er := (er s)\<lparr> OsSignal := Some sg \<rparr>,
               sdCtx := mk_ctx (shutdownTimeout (cfg s)), sdWorker := SdHead 0,
               main := MShutdownLoop 0 \<rparr>"
  | (signal_ret) "main s = MAwaitTrigger" "sg \<in> set (signals (cfg s))" "length sd = 0"
      "s' = s\<lparr> er := (er s)\<lparr> OsSignal := Some sg \<rparr>,
               sdCtx := ctx_cancel (mk_ctx (shutdownTimeout (cfg s))), sdWorker := SdHead 0,
               main := MReturned \<rparr>"
proof (cases "main s")
  case MAwaitTrigger
  with assms show ?thesis
    by (cases "0 < length sd")
       (auto simp: main_signal_def begin_shutdown_def shutdown_loop_def Start_return_def
          split: if_splits intro: signal_loop signal_ret)
qed (use assms in \<open>simp_all add: main_signal_def\<close>)

lemma st_worker_cases:
  assumes "st_worker st s = Some s'"
  obtains
    (call) i where "stWorker s = StHead i" "i < length st"
      "s' = s\<lparr> stWorker := StRun i, st_invoked := st_invoked s @ [i] \<rparr>"
  | (send_nil) i where "stWorker s = StHead i" "\<not> i < length st" "fnErrs s = []"
      "s' = s\<lparr> fnErrs := [None], stWorker := StDone \<rparr>"
  | (ret_nil) i where "stWorker s = StRun i" "i < length st" "(st ! i) (stCtx s) = Returns None"
      "s' = s\<lparr> stWorker := StHead (Suc i), st_returned := st_returned s @ [None] \<rparr>"
  | (ret_err) i e where "stWorker s = StRun i" "i < length st"
      "(st ! i) (stCtx s) = Returns (Some e)"
      "s' = s\<lparr> stWorker := StSend e, st_returned := st_returned s @ [Some e] \<rparr>"
  | (send_err) e where "stWorker s = StSend e" "fnErrs s = []"
      "s' = s\<lparr> fnErrs := [Some e], stWorker := StCancel \<rparr>"
  | (cancel) "stWorker s = StCancel"
      "s' = s\<lparr> stCtx := ctx_cancel (stCtx s), stWorker := StDone \<rparr>"
proof (cases "stWorker s")
  case (StHead i)
  with assms show ?thesis
    by (cases "i < length st"; cases "fnErrs s")
       (auto simp: st_worker_def chan_send_def fnErrs_cap_def intro: call send_nil)
next
  case (StRun i)
  with assms show ?thesis
    by (cases "i < length st"; cases "(st ! i) (stCtx s)")
       (auto simp: st_worker_def split: option.splits intro: ret_nil ret_err)
next
  case (StSend e)
  with assms show ?thesis
    by (cases "fnErrs s") (auto simp: st_worker_def chan_send_def fnErrs_cap_def intro: send_err)
next
  case StCancel
  with assms show ?thesis
    by (auto simp: st_worker_def intro: cancel)
qed (use assms in \<open>simp_all add: st_worker_def\<close>)

lemma sd_worker_cases:
  assumes "sd_worker sd s = Some s'"
  obtains
    (call) i where "sdWorker s = SdHead i" "i < length sd"
      "s' = s\<lparr> sdWorker := SdRun i, sd_invoked := sd_invoked s @ [i] \<rparr>"
  | (finish) i where "sdWorker s = SdHead i" "\<not> i < length sd"
      "s' = s\<lparr> sdWorker := SdDone \<rparr>"
  | (ret) i e where "sdWorker s = SdRun i" "i < length sd" "(sd ! i) (sdCtx s) = Returns e"
      "s' = s\<lparr> sdWorker := SdSend i e, sd_returned := sd_returned s @ [e] \<rparr>"
  | (send) i e where "sdWorker s = SdSend i e" "fnErrs s = []"
      "s' = s\<lparr> fnErrs := [e], sdWorker := SdHead (Suc i) \<rparr>"
proof (cases "sdWorker s")
  case (SdHead i)
  with assms show ?thesis
    by (cases "i < length sd") (auto simp: sd_worker_def intro: call finish)
next
  case (SdRun i)
  with assms show ?thesis
    by (cases "i < length sd"; cases "(sd ! i) (sdCtx s)")
       (auto simp: sd_worker_def intro: ret)
next
  case (SdSend i e)
  with assms show ?thesis
    by (cases "fnErrs s") (auto simp: sd_worker_def chan_send_def fnErrs_cap_def intro: send)
qed (use assms in \<open>simp_all add: sd_worker_def\<close>)

lemma ctx_fire_Some [simp]:
  "ctx_fire c = Some c' \<longleftrightarrow> c = WithTimeout None \<and> c' = WithTimeout (Some DeadlineExceeded)"
  by (cases c rule: ctx_fire.cases) auto

lemma Start_step_cases:
  assumes "Start_step st sd a s = Some s'"
  obtains
    (a_recv) "a = MainRecv" "main_recv sd s = Some s'"
  | (a_done) "a = MainDone" "main_done s = Some s'"
  | (a_signal) sg where "a = MainSignal sg" "main_signal sd sg s = Some s'"
  | (a_stw) "a = StWorker" "st_worker st s = Some s'"
  | (a_sdw) "a = SdWorker" "sd_worker sd s = Some s'"
  | (a_fire_st) "a = FireStartup" "stCtx s = WithTimeout None"
      "s' = s\<lparr> stCtx := WithTimeout (Some DeadlineExceeded) \<rparr>"
  | (a_fire_sd) "a = FireShutdown" "sdCtx s = WithTimeout None"
      "s' = s\<lparr> sdCtx := WithTimeout (Some DeadlineExceeded) \<rparr>"
  | (a_shutdown) e where "a = CallShutdown e" "s' = s\<lparr> rte := Shutdown e (rte s) \<rparr>"
  using assms by (cases a) (auto simp: Start_step_def split: option.splits)

subsection \<open>The logs\<close>

lemma st_log_inv_st_worker:
  assumes "st_log_inv st s" "st_worker st s = Some s'"
  shows "st_log_inv st s'"
  using assms(2,1)
  by (cases rule: st_worker_cases) (auto simp: st_log_inv_def split: st_worker_pc.splits)

lemma st_log_inv_step:
  assumes "st_log_inv st s" "Start_step st sd a s = Some s'"
  shows "st_log_inv st s'"
  using assms(2)
proof (cases rule: Start_step_cases)
  case a_recv
  from this(2) assms(1) show ?thesis
    by (cases rule: main_recv_cases) (auto simp: st_log_inv_def split: st_worker_pc.splits)
next
  case a_done
  from this(2) assms(1) show ?thesis
    by (cases rule: main_done_cases) (auto simp: st_log_inv_def split: st_worker_pc.splits)
next
  case (a_signal sg)
  from this(2) assms(1) show ?thesis
    by (cases rule: main_signal_cases) (auto simp: st_log_inv_def split: st_worker_pc.splits)
next
  case a_stw
  from this(2) assms(1) show ?thesis by (simp add: st_log_inv_st_worker)
next
  case a_sdw
  from this(2) assms(1) show ?thesis
    by (cases rule: sd_worker_cases) (auto simp: st_log_inv_def split: st_worker_pc.splits)
qed (use assms(1) in \<open>auto simp: st_log_inv_def split: st_worker_pc.splits\<close>)

lemma sd_log_inv_step:
  assumes "sd_log_inv sd s" "Start_step st sd a s = Some s'"
  shows "sd_log_inv sd s'"
  using assms(2)
proof (cases rule: Start_step_cases)
  case a_recv
  from this(2) assms(1) show ?thesis
    by (cases rule: main_recv_cases) (auto simp: sd_log_inv_def split: sd_worker_pc.splits)
next
  case a_done
  from this(2) assms(1) show ?thesis
    by (cases rule: main_done_cases) (auto simp: sd_log_inv_def split: sd_worker_pc.splits)
next
  case (a_signal sg)
  from this(2) assms(1) show ?thesis
    by (cases rule: main_signal_cases) (auto simp: sd_log_inv_def split: sd_worker_pc.splits)
next
  case a_stw
  from this(2) assms(1) show ?thesis
    by (cases rule: st_worker_cases) (auto simp: sd_log_inv_def split: sd_worker_pc.splits)
next
  case a_sdw
  from this(2) assms(1) show ?thesis
    by (cases rule: sd_worker_cases) (auto simp: sd_log_inv_def nth_append less_Suc_eq split: sd_worker_pc.splits)
qed (use assms(1) in \<open>auto simp: sd_log_inv_def split: sd_worker_pc.splits\<close>)

subsection \<open>The startup phase\<close>

lemma st_log_StHead:
  "st_log_inv st s \<Longrightarrow> stWorker s = StHead i \<Longrightarrow> \<forall>e \<in> set (st_returned s). e = None"
  by (simp add: st_log_inv_def)

lemma st_log_StRun:
  "st_log_inv st s \<Longrightarrow> stWorker s = StRun i \<Longrightarrow> \<forall>e \<in> set (st_returned s). e = None"
  by (simp add: st_log_inv_def)

lemma st_log_StSend:
  "st_log_inv st s \<Longrightarrow> stWorker s = StSend e \<Longrightarrow>
     st_returned s \<noteq> [] \<and> last (st_returned s) = Some e"
  by (simp add: st_log_inv_def)

lemma st_log_StCancel:
  "st_log_inv st s \<Longrightarrow> stWorker s = StCancel \<Longrightarrow>
     st_returned s \<noteq> [] \<and> last (st_returned s) \<noteq> None"
  by (simp add: st_log_inv_def)

lemma st_log_StDone:
  "st_log_inv st s \<Longrightarrow> stWorker s = StDone \<Longrightarrow>
     (st_returned s \<noteq> [] \<and> last (st_returned s) \<noteq> None) \<or>
     (\<forall>e \<in> set (st_returned s). e = None)"
  by (auto simp: st_log_inv_def)

lemma last_result_all_nil: "\<forall>e \<in> set rs. e = None \<Longrightarrow> last_result rs = None"
  by (simp add: last_result_def)

lemma sd_log_not_started:
  "sd_log_inv sd s \<Longrightarrow> main s = MStartupSelect \<or> main s = MAwaitTrigger \<Longrightarrow>
     sdWorker s = SdNotStarted"
  by (simp add: sd_log_inv_def)

lemma ctx_cancel_Background [simp]: "ctx_cancel c = Background \<longleftrightarrow> c = Background"
  by (cases c rule: ctx_cancel.cases) auto

lemma ctx_cancel_done: "ctx_Done c \<Longrightarrow> ctx_cancel c = c"
  by (cases c rule: ctx_cancel.cases) (auto simp: ctx_Done_def)

lemma ctx_cancel_live: "\<not> ctx_Done (ctx_cancel c) \<Longrightarrow> ctx_cancel c = c \<and> \<not> ctx_Done c"
  by (cases c rule: ctx_cancel.cases) (auto simp: ctx_Done_def)


lemma er0_simps [simp]:
  "OsSignal er0 = None" "ErrStartup er0 = None" "ErrRuntime er0 = None" "ErrsShutdown er0 = []"
  by (simp_all add: er0_def)

lemma startup_inv_recv:
  assumes "st_log_inv st s" "startup_inv s" "main_recv sd s = Some s'"
  shows "startup_inv s'"
  using assms(3)
proof (cases rule: main_recv_cases)
  case (startup_nil ch)
  with assms(2) have sent: "st_sent s = None # ch"
    by (simp add: startup_inv_def)
  then have pc: "stWorker s = StCancel \<or> stWorker s = StDone"
    and nil: "last_result (st_returned s) = None"
    by (auto simp: st_sent_def split: if_splits)
  from pc nil have dn: "stWorker s = StDone"
    using st_log_StCancel[OF assms(1)] by (auto simp: last_result_def split: if_splits)
  from nil have "\<forall>e \<in> set (st_returned s). e = None"
    using st_log_StDone[OF assms(1) dn] by (auto simp: last_result_def split: if_splits)
  with startup_nil assms(2) nil dn show ?thesis
    by (simp add: startup_inv_def)
next
  case (startup_err e ch)
  with assms(2) have sent: "st_sent s = Some e # ch"
    by (simp add: startup_inv_def)
  then have nil: "last_result (st_returned s) = Some e"
    by (auto simp: st_sent_def split: if_splits)
  with startup_err assms(2) show ?thesis
    by (simp add: startup_inv_def)
next
  case (trigger_loop e ch)
  with assms(2) show ?thesis by (auto simp: startup_inv_def)
next
  case (trigger_ret e ch)
  with assms(2) show ?thesis by (auto simp: startup_inv_def)
next
  case (loop_next n e ch)
  with assms(2) show ?thesis by (auto simp: startup_inv_def)
next
  case (loop_ret n e ch)
  with assms(2) show ?thesis by (auto simp: startup_inv_def)
qed

lemma startup_inv_done:
  assumes "startup_inv s" "main_done s = Some s'"
  shows "startup_inv s'"
  using assms(2)
proof (cases rule: main_done_cases)
  case (startup_done e)
  then have "stCtx s \<noteq> Background" by auto
  with startup_done assms(1) show ?thesis by (auto simp: startup_inv_def)
next
  case (loop_done n e)
  with assms(1) show ?thesis by (auto simp: startup_inv_def)
qed

lemma startup_inv_signal:
  assumes "startup_inv s" "main_signal sd sg s = Some s'"
  shows "startup_inv s'"
  using assms(2)
  by (cases rule: main_signal_cases) (use assms(1) in \<open>auto simp: startup_inv_def\<close>)

lemma last_result_snoc [simp]: "last_result (rs @ [r]) = r"
  by (simp add: last_result_def)

lemma startup_inv_st_worker:
  assumes "st_log_inv st s" "startup_inv s" "st_worker st s = Some s'"
  shows "startup_inv s'"
  using assms(3)
proof (cases rule: st_worker_cases)
  case (call i)
  have nil: "\<forall>e \<in> set (st_returned s). e = None"
    using st_log_StHead[OF assms(1) call(1)] .
  note last_result_all_nil[OF nil]
  with nil call assms(2) show ?thesis
    by (auto simp: startup_inv_def st_sent_def)
next
  case (send_nil i)
  have nil: "\<forall>e \<in> set (st_returned s). e = None"
    using st_log_StHead[OF assms(1) send_nil(1)] .
  note last_result_all_nil[OF nil]
  with nil send_nil assms(2) show ?thesis
    by (auto simp: startup_inv_def st_sent_def)
next
  case (ret_nil i)
  have nil: "\<forall>e \<in> set (st_returned s). e = None"
    using st_log_StRun[OF assms(1) ret_nil(1)] .
  note last_result_all_nil[OF nil]
  with nil ret_nil assms(2) show ?thesis
    by (auto simp: startup_inv_def st_sent_def)
next
  case (ret_err i e)
  have nil: "\<forall>e \<in> set (st_returned s). e = None"
    using st_log_StRun[OF assms(1) ret_err(1)] .
  note last_result_all_nil[OF nil]
  with nil ret_err assms(2) show ?thesis
    by (auto simp: startup_inv_def st_sent_def)
next
  case (send_err e)
  have "st_returned s \<noteq> [] \<and> last (st_returned s) = Some e"
    using st_log_StSend[OF assms(1) send_err(1)] .
  then have "last_result (st_returned s) = Some e"
    by (simp add: last_result_def)
  with send_err assms(2) show ?thesis
    by (auto simp: startup_inv_def st_sent_def)
next
  case cancel
  with assms(2) show ?thesis
    by (auto simp: startup_inv_def st_sent_def)
qed

lemma startup_inv_sd_worker:
  assumes "sd_log_inv sd s" "startup_inv s" "sd_worker sd s = Some s'"
  shows "startup_inv s'"
proof -
  have ns: "main s = MStartupSelect \<Longrightarrow> sdWorker s = SdNotStarted"
    using assms(1) by (simp add: sd_log_not_started)
  from assms(3) show ?thesis
    by (cases rule: sd_worker_cases)
       (use assms(2) ns in \<open>auto simp: startup_inv_def st_sent_def\<close>)
qed

lemma startup_inv_step:
  assumes "st_log_inv st s" "sd_log_inv sd s" "startup_inv s"
    and "Start_step st sd a s = Some s'"
  shows "startup_inv s'"
  using assms(4)
proof (cases rule: Start_step_cases)
  case a_recv
  with assms show ?thesis by (simp add: startup_inv_recv)
next
  case a_done
  with assms show ?thesis by (simp add: startup_inv_done)
next
  case (a_signal sg)
  with assms show ?thesis by (simp add: startup_inv_signal)
next
  case a_stw
  with assms show ?thesis by (simp add: startup_inv_st_worker)
next
  case a_sdw
  with assms show ?thesis by (simp add: startup_inv_sd_worker)
next
  case a_fire_st
  with assms(3) show ?thesis by (auto simp: startup_inv_def st_sent_def)
next
  case a_fire_sd
  with assms(3) show ?thesis by (auto simp: startup_inv_def st_sent_def)
next
  case (a_shutdown e)
  with assms(3) show ?thesis by (auto simp: startup_inv_def st_sent_def)
qed

subsection \<open>The trigger\<close>

lemma sd_log_no_results:
  "sd_log_inv sd s \<Longrightarrow> sdWorker s = SdNotStarted \<Longrightarrow> sd_returned s = []"
  by (simp add: sd_log_inv_def)

lemma startup_sent_single:
  assumes "startup_inv s" "main s = MStartupSelect" "fnErrs s = e # ch"
  shows "ch = []"
proof -
  from assms have "st_sent s = e # ch" by (simp add: startup_inv_def)
  then show ?thesis by (auto simp: st_sent_def split: if_splits)
qed

lemma startup_await_done:
  "startup_inv s \<Longrightarrow> main s = MAwaitTrigger \<Longrightarrow> stWorker s = StDone"
  by (simp add: startup_inv_def)

lemma startup_er0: "startup_inv s \<Longrightarrow> main s = MStartupSelect \<Longrightarrow> er s = er0"
  by (simp add: startup_inv_def)

lemma er0_no_startup_error [simp]: "er0\<lparr>ErrStartup := None\<rparr> = er0"
  by (simp add: er0_def)

lemma trigger_inv_recv:
  assumes "sd_log_inv sd s" "startup_inv s" "trigger_inv sd s" "main_recv sd s = Some s'"
  shows "trigger_inv sd s'"
  using assms(4)
proof (cases rule: main_recv_cases)
  case (startup_nil ch)
  note startup_sent_single[OF assms(2) startup_nil(1,2)] startup_er0[OF assms(2) startup_nil(1)]
    sd_log_not_started[OF assms(1) disjI1[OF startup_nil(1)]]
  with startup_nil assms(3) show ?thesis by (auto simp: trigger_inv_def)
next
  case (startup_err e ch)
  note startup_er0[OF assms(2) startup_err(1)]
    sd_log_not_started[OF assms(1) disjI1[OF startup_err(1)]]
  with startup_err assms(3) show ?thesis by (auto simp: trigger_inv_def)
next
  case (trigger_loop e ch)
  with assms(3) show ?thesis by (auto simp: trigger_inv_def)
next
  case (trigger_ret e ch)
  with assms(3) show ?thesis by (auto simp: trigger_inv_def)
next
  case (loop_next n e ch)
  with assms(3) show ?thesis by (auto simp: trigger_inv_def)
next
  case (loop_ret n e ch)
  with assms(3) show ?thesis by (auto simp: trigger_inv_def)
qed

lemma trigger_inv_done:
  assumes "sd_log_inv sd s" "trigger_inv sd s" "main_done s = Some s'"
  shows "trigger_inv sd s'"
  using assms(3)
proof (cases rule: main_done_cases)
  case (startup_done e)
  note sd_log_not_started[OF assms(1) disjI1[OF startup_done(1)]]
  with startup_done assms(2) show ?thesis by (auto simp: trigger_inv_def)
next
  case (loop_done n e)
  with assms(2) show ?thesis by (auto simp: trigger_inv_def)
qed

lemma trigger_inv_signal:
  assumes "trigger_inv sd s" "main_signal sd sg s = Some s'"
  shows "trigger_inv sd s'"
  using assms(2)
  by (cases rule: main_signal_cases) (use assms(1) in \<open>auto simp: trigger_inv_def\<close>)

lemma trigger_inv_st_worker:
  assumes "startup_inv s" "trigger_inv sd s" "st_worker st s = Some s'"
  shows "trigger_inv sd s'"
proof -
  have dn: "main s = MAwaitTrigger \<Longrightarrow> stWorker s = StDone"
    using assms(1) by (simp add: startup_await_done)
  from assms(3) show ?thesis
    by (cases rule: st_worker_cases) (use assms(2) dn in \<open>auto simp: trigger_inv_def\<close>)
qed

lemma trigger_inv_sd_worker:
  assumes "sd_log_inv sd s" "trigger_inv sd s" "sd_worker sd s = Some s'"
  shows "trigger_inv sd s'"
proof -
  have ns: "main s = MAwaitTrigger \<Longrightarrow> sdWorker s = SdNotStarted"
    using assms(1) by (simp add: sd_log_not_started)
  from assms(3) show ?thesis
    by (cases rule: sd_worker_cases) (use assms(2) ns in \<open>auto simp: trigger_inv_def\<close>)
qed

lemma trigger_inv_step:
  assumes "sd_log_inv sd s" "startup_inv s" "trigger_inv sd s"
    and "Start_step st sd a s = Some s'"
  shows "trigger_inv sd s'"
  using assms(4)
proof (cases rule: Start_step_cases)
  case a_recv
  with assms show ?thesis by (simp add: trigger_inv_recv)
next
  case a_done
  with assms show ?thesis by (simp add: trigger_inv_done)
next
  case (a_signal sg)
  with assms show ?thesis by (simp add: trigger_inv_signal)
next
  case a_stw
  with assms show ?thesis by (simp add: trigger_inv_st_worker)
next
  case a_sdw
  with assms show ?thesis by (simp add: trigger_inv_sd_worker)
next
  case a_fire_st
  with assms(3) show ?thesis by (auto simp: trigger_inv_def)
next
  case a_fire_sd
  with assms(3) show ?thesis by (auto simp: trigger_inv_def)
next
  case (a_shutdown e)
  with assms(3) show ?thesis by (auto simp: trigger_inv_def)
qed

subsection \<open>The shutdown phase\<close>

lemma non_nil_snoc [simp]:
  "non_nil (rs @ [r]) = (if r \<noteq> None then non_nil rs @ [r] else non_nil rs)"
  by (simp add: non_nil_def)

lemma non_nil_Nil [simp]: "non_nil [] = []"
  by (simp add: non_nil_def)

lemma ctx_Err_mk_ctx [simp]: "ctx_Err (mk_ctx d) = None"
  by (simp add: mk_ctx_def)

lemma trigger_await:
  "trigger_inv sd s \<Longrightarrow> main s = MAwaitTrigger \<Longrightarrow> er s = er0 \<and> fnErrs s = []"
  by (simp add: trigger_inv_def)

lemma trigger_not_started:
  "trigger_inv sd s \<Longrightarrow> sdWorker s = SdNotStarted \<Longrightarrow>
     ErrsShutdown (er s) = [] \<and> sd_received s = []"
  by (simp add: trigger_inv_def)

lemma shutdown_begin_facts:
  assumes "sd_log_inv sd s" "trigger_inv sd s" "main s = MAwaitTrigger"
  shows "sdWorker s = SdNotStarted \<and> sd_returned s = [] \<and> sd_received s = [] \<and>
    fnErrs s = [] \<and> er s = er0"
proof -
  have ns: "sdWorker s = SdNotStarted"
    using assms(1,3) by (simp add: sd_log_not_started)
  with assms show ?thesis
    by (simp add: sd_log_no_results trigger_await trigger_not_started)
qed

lemma shutdown_started_done:
  assumes "sd_log_inv sd s" "startup_inv s" "trigger_inv sd s" "sdWorker s \<noteq> SdNotStarted"
  shows "stWorker s = StDone"
proof -
  from assms(1,4) have "main s \<noteq> MStartupSelect"
    by (auto dest: sd_log_not_started)
  moreover from assms(3,4) have "ErrStartup (er s) = None"
    by (simp add: trigger_inv_def)
  ultimately show ?thesis using assms(2)
    by (auto simp: startup_inv_def)
qed

lemma shutdown_inv_recv:
  assumes "sd_log_inv sd s" "trigger_inv sd s" "shutdown_inv sd s" "main_recv sd s = Some s'"
  shows "shutdown_inv sd s'"
  using assms(4)
proof (cases rule: main_recv_cases)
  case (startup_nil ch)
  note sd_log_not_started[OF assms(1) disjI1[OF startup_nil(1)]]
  with startup_nil assms(3) show ?thesis by (auto simp: shutdown_inv_def)
next
  case (startup_err e ch)
  note sd_log_not_started[OF assms(1) disjI1[OF startup_err(1)]]
  with startup_err assms(3) show ?thesis by (auto simp: shutdown_inv_def)
next
  case (trigger_loop e ch)
  note shutdown_begin_facts[OF assms(1,2) trigger_loop(1)]
  with trigger_loop show ?thesis by (auto simp: shutdown_inv_def sd_pending_def)
next
  case (trigger_ret e ch)
  note shutdown_begin_facts[OF assms(1,2) trigger_ret(1)]
  with trigger_ret show ?thesis by (auto simp: shutdown_inv_def sd_pending_def)
next
  case (loop_next n e ch)
  with assms(3) show ?thesis by (auto simp: shutdown_inv_def sd_pending_def)
next
  case (loop_ret n e ch)
  with assms(3) show ?thesis by (auto simp: shutdown_inv_def sd_pending_def)
qed

lemma shutdown_inv_done:
  assumes "sd_log_inv sd s" "shutdown_inv sd s" "main_done s = Some s'"
  shows "shutdown_inv sd s'"
  using assms(3)
proof (cases rule: main_done_cases)
  case (startup_done e)
  note sd_log_not_started[OF assms(1) disjI1[OF startup_done(1)]]
  with startup_done assms(2) show ?thesis by (auto simp: shutdown_inv_def)
next
  case (loop_done n e)
  with assms(2) show ?thesis by (auto simp: shutdown_inv_def sd_pending_def)
qed

lemma shutdown_inv_signal:
  assumes "sd_log_inv sd s" "trigger_inv sd s" "shutdown_inv sd s"
    and "main_signal sd sg s = Some s'"
  shows "shutdown_inv sd s'"
  using assms(4)
proof (cases rule: main_signal_cases)
  case signal_loop
  note shutdown_begin_facts[OF assms(1,2) signal_loop(1)]
  with signal_loop show ?thesis by (auto simp: shutdown_inv_def sd_pending_def)
next
  case signal_ret
  note shutdown_begin_facts[OF assms(1,2) signal_ret(1)]
  with signal_ret show ?thesis by (auto simp: shutdown_inv_def sd_pending_def)
qed

lemma shutdown_inv_st_worker:
  assumes "sd_log_inv sd s" "startup_inv s" "trigger_inv sd s" "shutdown_inv sd s"
    and "st_worker st s = Some s'"
  shows "shutdown_inv sd s'"
proof -
  have dn: "sdWorker s \<noteq> SdNotStarted \<Longrightarrow> stWorker s = StDone"
    using assms(1-3) by (rule shutdown_started_done)
  from assms(5) show ?thesis
    by (cases rule: st_worker_cases)
       (use assms(4) dn in \<open>auto simp: shutdown_inv_def sd_pending_def\<close>)
qed

lemma shutdown_inv_sd_worker:
  assumes "shutdown_inv sd s" "sd_worker sd s = Some s'"
  shows "shutdown_inv sd s'"
  using assms(2)
  by (cases rule: sd_worker_cases)
     (use assms(1) in \<open>auto simp: shutdown_inv_def sd_pending_def\<close>)

lemma shutdown_inv_step:
  assumes "sd_log_inv sd s" "startup_inv s" "trigger_inv sd s" "shutdown_inv sd s"
    and "Start_step st sd a s = Some s'"
  shows "shutdown_inv sd s'"
  using assms(5)
proof (cases rule: Start_step_cases)
  case a_recv
  with assms show ?thesis by (simp add: shutdown_inv_recv)
next
  case a_done
  with assms show ?thesis by (simp add: shutdown_inv_done)
next
  case (a_signal sg)
  with assms show ?thesis by (simp add: shutdown_inv_signal)
next
  case a_stw
  with assms show ?thesis by (simp add: shutdown_inv_st_worker)
next
  case a_sdw
  with assms show ?thesis by (simp add: shutdown_inv_sd_worker)
next
  case a_fire_st
  with assms(4) show ?thesis by (auto simp: shutdown_inv_def sd_pending_def)
next
  case a_fire_sd
  with assms(4) show ?thesis by (auto simp: shutdown_inv_def sd_pending_def)
next
  case (a_shutdown e)
  with assms(4) show ?thesis by (auto simp: shutdown_inv_def sd_pending_def)
qed

subsection \<open>Every run keeps the invariants\<close>

lemma Start_inv_step:
  assumes "Start_inv st sd s" "Start_step st sd a s = Some s'"
  shows "Start_inv st sd s'"
  using assms
  by (simp add: Start_inv_def st_log_inv_step[of st s sd a s'] sd_log_inv_step[of sd s st a s']
      startup_inv_step[of st s sd a s'] trigger_inv_step[of sd s st a s']
      shutdown_inv_step[of sd s st a s'])

lemma Start_inv_init: "Start_inv st sd (Start_init opts rte0)"
  by (cases "parseOptions default_config opts")
     (auto simp: Start_inv_def Start_init_def st_log_inv_def sd_log_inv_def startup_inv_def
        trigger_inv_def shutdown_inv_def st_sent_def mk_ctx_def split: option.splits)

lemma Start_inv_run:
  assumes "Start st sd opts rte0 sched = Some s"
  shows "Start_inv st sd s"
  using assms unfolding Start_def
  by (rule Start_exec_invariant) (rule Start_inv_init, rule Start_inv_step)

lemma never_started_step:
  assumes "never_started s" "Start_step st sd a s = Some s'"
  shows "never_started s' \<and> er s' = er s \<and> st_invoked s' = st_invoked s \<and>
    sd_invoked s' = sd_invoked s"
  using assms(2)
proof (cases rule: Start_step_cases)
  case a_recv
  from this(2) assms(1) show ?thesis
    by (cases rule: main_recv_cases) (auto simp: never_started_def)
next
  case a_done
  from this(2) assms(1) show ?thesis
    by (cases rule: main_done_cases) (auto simp: never_started_def)
next
  case (a_signal sg)
  from this(2) assms(1) show ?thesis
    by (cases rule: main_signal_cases) (auto simp: never_started_def)
next
  case a_stw
  from this(2) assms(1) show ?thesis
    by (cases rule: st_worker_cases) (auto simp: never_started_def)
next
  case a_sdw
  from this(2) assms(1) show ?thesis
    by (cases rule: sd_worker_cases) (auto simp: never_started_def)
qed (use assms(1) in \<open>auto simp: never_started_def\<close>)

lemma never_started_run:
  assumes "Start_exec st sd sched s = Some s'" "never_started s"
  shows "never_started s' \<and> er s' = er s \<and> st_invoked s' = st_invoked s \<and>
    sd_invoked s' = sd_invoked s"
proof -
  let ?P = "\<lambda>t. never_started t \<and> er t = er s \<and> st_invoked t = st_invoked s \<and>
    sd_invoked t = sd_invoked s"
  have "?P s'"
  proof (rule Start_exec_invariant[OF assms(1), where P = ?P])
    show "?P s" using assms(2) by simp
  next
    fix a t t' assume "?P t" "Start_step st sd a t = Some t'"
    then show "?P t'" using never_started_step[of t st sd a t'] by simp
  qed
  then show ?thesis .
qed

lemma errs_non_nil_step:
  assumes "None \<notin> set (ErrsShutdown (er s))" "Start_step st sd a s = Some s'"
  shows "None \<notin> set (ErrsShutdown (er s'))"
  using assms(2)
proof (cases rule: Start_step_cases)
  case a_recv
  from this(2) assms(1) show ?thesis
    by (cases rule: main_recv_cases) auto
next
  case a_done
  from this(2) assms(1) show ?thesis
    by (cases rule: main_done_cases) auto
next
  case (a_signal sg)
  from this(2) assms(1) show ?thesis
    by (cases rule: main_signal_cases) auto
next
  case a_stw
  from this(2) assms(1) show ?thesis
    by (cases rule: st_worker_cases) auto
next
  case a_sdw
  from this(2) assms(1) show ?thesis
    by (cases rule: sd_worker_cases) auto
qed (use assms(1) in auto)

lemma errs_non_nil_init: "None \<notin> set (ErrsShutdown (er (Start_init opts rte0)))"
  by (cases "parseOptions default_config opts")
     (auto simp: Start_init_def split: option.splits)

lemma errs_non_nil_run:
  assumes "Start st sd opts rte0 sched = Some s"
  shows "None \<notin> set (ErrsShutdown (er s))"
  using assms unfolding Start_def
  by (rule Start_exec_invariant) (rule errs_non_nil_init, rule errs_non_nil_step)

lemma render_errs_non_nil: "None \<notin> set es \<Longrightarrow> render_errs es acc \<noteq> None"
  by (induction es acc rule: render_errs.induct) auto

subsection \<open>The resolution of the options\<close>

lemma parseOptions_bad_timeout:
  assumes "ob \<in> set opts"
    and "code ob = optionStartupTimeout \<or> code ob = optionShutdownTimeout"
    and "\<forall>v. payload ob = Duration v \<longrightarrow> v < 1"
  shows "snd (parseOptions c opts) \<noteq> None"
  using assms(1)
proof (induction opts arbitrary: c)
  case Nil
  then show ?case by simp
next
  case (Cons x xs)
  show ?case
  proof (cases "x = ob")
    case True
    with assms(2,3) show ?thesis
      by (auto simp: optionStartupTimeout_def optionShutdownTimeout_def split: any.splits)
  next
    case False
    with Cons have "\<And>c. snd (parseOptions c xs) \<noteq> None" by simp
    then show ?thesis
      by (simp split: any.splits)
  qed
qed

lemma parseOptions_append:
  "parseOptions c pre = (c', None) \<Longrightarrow> parseOptions c (pre @ rest) = parseOptions c' rest"
  by (induction pre arbitrary: c) (auto split: any.splits if_splits)

lemma resolution_failure_returns:
  assumes "parseOptions default_config opts = (c, Some e)"
    and "Start st sd opts rte0 sched = Some s"
  shows "main s = MReturned \<and> er s = er0\<lparr> ErrStartup := Some e \<rparr> \<and>
    st_invoked s = [] \<and> sd_invoked s = []"
proof -
  have init: "never_started (Start_init opts rte0)"
    "er (Start_init opts rte0) = er0\<lparr> ErrStartup := Some e \<rparr>"
    "st_invoked (Start_init opts rte0) = []" "sd_invoked (Start_init opts rte0) = []"
    using assms(1) by (simp_all add: Start_init_def never_started_def)
  from never_started_run[OF assms(2)[unfolded Start_def] init(1)] init(2-4)
  show ?thesis by (simp add: never_started_def)
qed

subsection \<open>Facts about the startup phase\<close>

lemma Start_exec_append:
  "Start_exec st sd (xs @ ys) s =
     (case Start_exec st sd xs s of None \<Rightarrow> None | Some s' \<Rightarrow> Start_exec st sd ys s')"
  by (induction xs arbitrary: s) (auto split: option.splits)

lemma Start_append:
  "Start st sd opts rte0 sched = Some s \<Longrightarrow>
     Start st sd opts rte0 (sched @ sched2) = Start_exec st sd sched2 s"
  by (simp add: Start_def Start_exec_append)




subsection \<open>Facts about the shutdown phase\<close>

lemma shutdown_sequential:
  assumes "Start st sd opts rte0 sched = Some s"
  shows "sd_invoked s = [0..<length (sd_invoked s)] \<and>
    length (sd_returned s) \<le> length (sd_invoked s) \<and>
    length (sd_invoked s) \<le> Suc (length (sd_returned s)) \<and>
    (\<forall>i < length (sd_returned s). \<exists>c. (sd ! i) c = Returns (sd_returned s ! i))"
proof -
  have inv: "sd_log_inv sd s"
    using Start_inv_run[OF assms] by (simp add: Start_inv_def)
  then have "sd_invoked s = [0..<length (sd_invoked s)]"
    and "\<forall>i < length (sd_returned s). \<exists>c. (sd ! i) c = Returns (sd_returned s ! i)"
    by (simp_all add: sd_log_inv_def)
  moreover have "length (sd_returned s) \<le> length (sd_invoked s) \<and>
      length (sd_invoked s) \<le> Suc (length (sd_returned s))"
    using inv by (cases "sdWorker s") (simp_all add: sd_log_inv_def)
  ultimately show ?thesis by simp
qed

lemma shutdown_received_prefix:
  assumes "Start st sd opts rte0 sched = Some s"
  shows "sd_received s = take (length (sd_received s)) (sd_returned s)"
proof -
  have inv: "trigger_inv sd s" "shutdown_inv sd s"
    using Start_inv_run[OF assms] by (simp_all add: Start_inv_def)
  show ?thesis
  proof (cases "sdWorker s = SdNotStarted")
    case True
    with inv(1) show ?thesis by (simp add: trigger_inv_def)
  next
    case False
    with inv(2) have "sd_returned s = sd_received s @ fnErrs s @ sd_pending s"
      by (simp add: shutdown_inv_def)
    then show ?thesis by simp
  qed
qed

lemma shutdown_returns_after:
  assumes "Start st sd opts rte0 sched = Some s" "main s = MReturned" "ErrStartup (er s) = None"
  shows "(length (sd_received s) = length sd \<and>
           ErrsShutdown (er s) = non_nil (sd_received s)) \<or>
         (length (sd_received s) < length sd \<and>
           ErrsShutdown (er s) = non_nil (sd_received s) @ [Some DeadlineExceeded])"
proof -
  have inv: "trigger_inv sd s" "shutdown_inv sd s"
    using Start_inv_run[OF assms(1)] by (simp_all add: Start_inv_def)
  from inv(1) assms(2,3) have "sdWorker s \<noteq> SdNotStarted"
    by (auto simp: trigger_inv_def)
  with inv(2) assms(2) show ?thesis
    by (simp add: shutdown_inv_def)
qed

lemma shutdown_collecting:
  assumes "Start st sd opts rte0 sched = Some s" "main s = MShutdownLoop n"
  shows "n = length (sd_received s) \<and> n < length sd \<and>
    ErrsShutdown (er s) = non_nil (sd_received s) \<and>
    (ctx_Done (sdCtx s) \<longrightarrow> ctx_Err (sdCtx s) = Some DeadlineExceeded)"
proof -
  have "shutdown_inv sd s"
    using Start_inv_run[OF assms(1)] by (simp add: Start_inv_def)
  with assms(2) show ?thesis
    by (auto simp: shutdown_inv_def ctx_Done_def)
qed

lemma non_nil_all:
  assumes "None \<notin> set rs"
  shows "non_nil rs = rs"
  unfolding non_nil_def
proof (rule filter_True)
  show "\<forall>x \<in> set rs. x \<noteq> None" using assms by metis
qed

lemma shutdown_blocked_bound:
  assumes "Start st sd opts rte0 sched = Some s"
    and "\<forall>c. (sd ! J) c = Blocked"
  shows "length (sd_returned s) \<le> J"
proof (rule ccontr)
  assume "\<not> length (sd_returned s) \<le> J"
  then have "J < length (sd_returned s)" by simp
  with shutdown_sequential[OF assms(1)]
  obtain c where "(sd ! J) c = Returns (sd_returned s ! J)" by blast
  with assms(2) show False by simp
qed

subsection \<open>What the first select leaves in the startup error\<close>










text \<open>
  With a startup timeout that never expires, the startup worker's own \<^verbatim>\<open>stCancel()\<close>, called
  after it has sent the error of the failed step, makes the \<^verbatim>\<open>Done()\<close> case of the first
  \<^verbatim>\<open>select\<close> ready beside the receive case: the \<^verbatim>\<open>select\<close> may take it, and the startup error
  is then \<^verbatim>\<open>context.Canceled\<close>.
\<close>

lemma startup_cancel_race:
  "\<exists>s. Start [\<lambda>c. Returns (Some (UserError ''no database''))] [] [WithStartupTimeout 3600] []
          [StWorker, StWorker, StWorker, StWorker, MainDone] = Some s \<and>
       main s = MReturned \<and> st_returned s = [Some (UserError ''no database'')] \<and>
       ErrStartup (er s) = Some Canceled"
proof -
  have "case Start [\<lambda>c. Returns (Some (UserError ''no database''))] []
          [WithStartupTimeout 3600] []
          [StWorker, StWorker, StWorker, StWorker, MainDone] of
          None \<Rightarrow> False
        | Some s \<Rightarrow> main s = MReturned \<and>
            st_returned s = [Some (UserError ''no database'')] \<and>
            ErrStartup (er s) = Some Canceled"
    by code_simp
  then show ?thesis by (auto split: option.splits)
qed

section \<open>Reasoning about the fan-out helper\<close>

lemma Multi_exec_invariant:
  assumes "Multi_exec fns sched s = Some s'" and "P s"
    and "\<And>a s s'. P s \<Longrightarrow> Multi_step fns a s = Some s' \<Longrightarrow> P s'"
  shows "P s'"
  using assms(1,2)
proof (induction sched arbitrary: s)
  case Nil
  then show ?case by simp
next
  case (Cons a sched)
  then show ?case by (auto split: option.splits intro: assms(3))
qed


lemma multi_recv_cases:
  assumes "multi_recv fns s = Some s'"
  obtains
    (next_iteration) n e ch where "mmain s = MultiLoop n" "errCh s = e # ch" "Suc n < length fns"
      "s' = s\<lparr> errCh := ch, err := (if err s = None \<and> e \<noteq> None then e else err s),
               received := received s @ [e], mmain := MultiLoop (Suc n) \<rparr>"
  | (last_iteration) n e ch where "mmain s = MultiLoop n" "errCh s = e # ch"
      "\<not> Suc n < length fns"
      "s' = s\<lparr> errCh := ch, err := (if err s = None \<and> e \<noteq> None then e else err s),
               received := received s @ [e],
               mmain := MultiReturned (if err s = None \<and> e \<noteq> None then e else err s) \<rparr>"
proof (cases "mmain s")
  case (MultiLoop n)
  with assms show ?thesis
    by (cases "errCh s"; cases "Suc n < length fns")
       (auto simp: multi_recv_def multi_loop_def intro: next_iteration last_iteration)
next
  case (MultiReturned r)
  with assms show ?thesis by (simp add: multi_recv_def)
qed

lemma multi_done_cases:
  assumes "multi_done s = Some s'"
  obtains n where "mmain s = MultiLoop n" "ctx_Done (mctx s)"
    "s' = s\<lparr> mmain := MultiReturned (ctx_Err (mctx s)) \<rparr>"
  using assms by (cases "mmain s") (auto simp: multi_done_def split: if_splits)

lemma multi_worker_cases:
  assumes "multi_worker_step fns i s = Some s'"
  obtains
    (returns) e where "i < length fns" "i < length (workers s)" "workers s ! i = MwRun"
      "(fns ! i) (mctx s) = Returns e" "s' = s\<lparr> workers := (workers s)[i := MwSend e] \<rparr>"
  | (sends) e where "i < length fns" "i < length (workers s)" "workers s ! i = MwSend e"
      "length (errCh s) < length fns"
      "s' = s\<lparr> errCh := errCh s @ [e], workers := (workers s)[i := MwDone],
               completed := completed s @ [i], reported := reported s @ [e] \<rparr>"
proof (cases "i < length fns \<and> i < length (workers s)")
  case True
  show ?thesis
  proof (cases "workers s ! i")
    case MwRun
    with True assms show ?thesis
      by (cases "(fns ! i) (mctx s)") (auto simp: multi_worker_step_def intro: returns)
  next
    case (MwSend e)
    with True assms show ?thesis
      by (auto simp: multi_worker_step_def chan_send_def split: if_splits intro: sends)
  next
    case MwDone
    with True assms show ?thesis by (simp add: multi_worker_step_def)
  qed
next
  case False
  with assms show ?thesis by (simp add: multi_worker_step_def)
qed

lemma Multi_step_cases:
  assumes "Multi_step fns a s = Some s'"
  obtains
    (m_recv) "a = MultiRecv" "multi_recv fns s = Some s'"
  | (m_done) "a = MultiDone" "multi_done s = Some s'"
  | (m_worker) i where "a = MultiWorker i" "multi_worker_step fns i s = Some s'"
  | (m_cancel) "a = CtxCancel" "s' = s\<lparr> mctx := ctx_cancel (mctx s) \<rparr>"
  | (m_fire) "a = CtxFire" "mctx s = WithTimeout None"
      "s' = s\<lparr> mctx := WithTimeout (Some DeadlineExceeded) \<rparr>"
  using assms by (cases a) (auto simp: Multi_step_def split: option.splits)

lemma first_error_single [simp]: "first_error [r] = r"
  by (cases r) simp_all

lemma first_error_snoc:
  "first_error (rs @ [r]) = (if first_error rs = None then r else first_error rs)"
  by (induction rs rule: first_error.induct) auto

lemma multi_inv_step:
  assumes "multi_inv fns s" "Multi_step fns a s = Some s'"
  shows "multi_inv fns s'"
  using assms(2)
proof (cases rule: Multi_step_cases)
  case m_recv
  from this(2) assms(1) show ?thesis
    by (cases rule: multi_recv_cases) (auto simp: multi_inv_def first_error_snoc)
next
  case m_done
  from this(2) assms(1) show ?thesis
    by (cases rule: multi_done_cases) (auto simp: multi_inv_def)
next
  case (m_worker i)
  from this(2) assms(1) show ?thesis
    by (cases rule: multi_worker_cases) (auto simp: multi_inv_def nth_list_update)
next
  case m_cancel
  with assms(1) show ?thesis
    by (cases "ctx_Done (mctx s)") (auto simp: multi_inv_def ctx_cancel_done)
next
  case m_fire
  with assms(1) show ?thesis by (auto simp: multi_inv_def ctx_Done_def)
qed

lemma multi_vals_step:
  assumes "multi_inv fns s" "multi_vals fns c0 s" "Multi_step fns a s = Some s'"
  shows "multi_vals fns c0 s'"
  using assms(3)
proof (cases rule: Multi_step_cases)
  case m_recv
  from this(2) assms(2) show ?thesis
    by (cases rule: multi_recv_cases) (auto simp: multi_vals_def)
next
  case m_done
  from this(2) assms(2) show ?thesis
    by (cases rule: multi_done_cases) (auto simp: multi_vals_def)
next
  case (m_worker i)
  from this(2) assms(1,2) show ?thesis
    by (cases rule: multi_worker_cases)
       (auto simp: multi_vals_def multi_inv_def nth_list_update nth_append)
next
  case m_cancel
  with assms(2) show ?thesis
    by (auto simp: multi_vals_def dest: ctx_cancel_live)
next
  case m_fire
  with assms(2) show ?thesis by (auto simp: multi_vals_def ctx_Done_def)
qed

lemma multi_inv_init: "multi_inv fns (Multi_init fns c)"
  by (auto simp: multi_inv_def Multi_init_def multi_loop_def)

lemma multi_vals_init: "multi_vals fns c (Multi_init fns c)"
  by (auto simp: multi_vals_def Multi_init_def multi_loop_def)

lemma multi_inv_run:
  assumes "Multi fns c sched = Some s"
  shows "multi_inv fns s"
  using assms unfolding Multi_def
  by (rule Multi_exec_invariant) (rule multi_inv_init, rule multi_inv_step)

lemma multi_vals_run:
  assumes "Multi fns c sched = Some s"
  shows "multi_vals fns c s"
proof -
  have "multi_inv fns s \<and> multi_vals fns c s"
    using assms unfolding Multi_def
  proof (rule Multi_exec_invariant)
    show "multi_inv fns (Multi_init fns c) \<and> multi_vals fns c (Multi_init fns c)"
      by (simp add: multi_inv_init multi_vals_init)
  next
    fix a s s'
    assume "multi_inv fns s \<and> multi_vals fns c s" "Multi_step fns a s = Some s'"
    then show "multi_inv fns s' \<and> multi_vals fns c s'"
      by (simp add: multi_inv_step[of fns s a s'] multi_vals_step[of fns s c a s'])
  qed
  then show ?thesis by simp
qed

lemma multi_returned_stable:
  assumes "mmain s = MultiReturned r" "Multi_step fns a s = Some s'"
  shows "mmain s' = MultiReturned r"
  using assms(2)
proof (cases rule: Multi_step_cases)
  case m_recv
  from this(2) assms(1) show ?thesis by (cases rule: multi_recv_cases) auto
next
  case m_done
  from this(2) assms(1) show ?thesis by (cases rule: multi_done_cases) auto
next
  case (m_worker i)
  from this(2) assms(1) show ?thesis by (cases rule: multi_worker_cases) auto
qed (use assms(1) in auto)

subsection \<open>When the fan-out returns with the context alive\<close>

lemma distinct_bounded:
  assumes "distinct xs" "\<forall>x \<in> set xs. x < (k::nat)"
  shows "length xs \<le> k" and "length xs = k \<Longrightarrow> set xs = {0..<k}"
proof -
  have sub: "set xs \<subseteq> {0..<k}" using assms(2) by auto
  have card: "card (set xs) = length xs" using assms(1) by (rule distinct_card)
  from sub have "card (set xs) \<le> card {0..<k}" by (intro card_mono) simp_all
  with card show "length xs \<le> k" by simp
  show "set xs = {0..<k}" if "length xs = k"
    using sub card that by (intro card_subset_eq) simp_all
qed

lemma first_error_all_nil: "\<forall>r \<in> set rs. r = None \<Longrightarrow> first_error rs = None"
  by (induction rs rule: first_error.induct) auto

lemma first_error_only:
  "Some e \<in> set rs \<Longrightarrow> \<forall>r \<in> set rs. r = None \<or> r = Some e \<Longrightarrow> first_error rs = Some e"
  by (induction rs rule: first_error.induct) auto

lemma multi_returned_live:
  assumes "Multi fns c sched = Some s" "mmain s = MultiReturned r" "\<not> ctx_Done (mctx s)"
  shows "distinct (completed s) \<and> set (completed s) = {0..<length fns} \<and>
    (\<forall>i < length fns. workers s ! i = MwDone) \<and> length (reported s) = length fns \<and>
    length (completed s) = length fns \<and>
    (\<forall>k < length fns. (fns ! (completed s ! k)) c = Returns (reported s ! k)) \<and>
    r = first_error (reported s)"
proof -
  have inv: "multi_inv fns s" using assms(1) by (rule multi_inv_run)
  have vals: "multi_vals fns c s" using assms(1) by (rule multi_vals_run)
  from inv assms(2,3) have rec: "length (received s) = length fns" "r = first_error (received s)"
    by (auto simp: multi_inv_def)
  from inv have d: "distinct (completed s)" and b: "\<forall>x \<in> set (completed s). x < length fns"
    and len: "length (completed s) = length (reported s)"
    and rep: "reported s = received s @ errCh s"
    and mem: "\<forall>i. i \<in> set (completed s) \<longleftrightarrow> i < length fns \<and> workers s ! i = MwDone"
    by (simp_all add: multi_inv_def)
  have "length (completed s) \<le> length fns" using d b by (rule distinct_bounded(1))
  with len rep rec(1) have full: "length (completed s) = length fns" and e: "errCh s = []"
    by simp_all
  have set: "set (completed s) = {0..<length fns}"
    using d b full by (rule distinct_bounded(2))
  with mem have alldone: "\<forall>i < length fns. workers s ! i = MwDone" by auto
  from vals assms(3) len full
  have "\<forall>k < length fns. (fns ! (completed s ! k)) c = Returns (reported s ! k)"
    by (simp add: multi_vals_def)
  with d set alldone len full rep e rec(2) show ?thesis by simp
qed

lemma multi_single_failure:
  assumes "distinct cs" "set cs = {0..<length fns}" "length rs = length cs"
    and "\<forall>k < length cs. (fns ! (cs ! k)) c = Returns (rs ! k)"
    and "i < length fns" "(fns ! i) c = Returns (Some e)"
    and "\<forall>j < length fns. j \<noteq> i \<longrightarrow> (fns ! j) c = Returns None"
  shows "first_error rs = Some e"
proof (rule first_error_only)
  from assms(2,5) have "i \<in> set cs" by simp
  then obtain k where k: "k < length cs" "cs ! k = i" by (auto simp: in_set_conv_nth)
  with assms(4,6) have "rs ! k = Some e" by auto
  with k(1) assms(3) show "Some e \<in> set rs" by (metis nth_mem)
next
  show "\<forall>r \<in> set rs. r = None \<or> r = Some e"
  proof
    fix r assume "r \<in> set rs"
    then obtain k where k: "k < length rs" "rs ! k = r" by (auto simp: in_set_conv_nth)
    with assms(3) have kc: "k < length cs" by simp
    then have "cs ! k \<in> set cs" by (rule nth_mem)
    with assms(2) have lt: "cs ! k < length fns" by simp
    from assms(4) kc k(2) have ret: "(fns ! (cs ! k)) c = Returns r" by simp
    show "r = None \<or> r = Some e"
    proof (cases "cs ! k = i")
      case True
      with ret assms(6) show ?thesis by simp
    next
      case False
      with lt assms(7) ret show ?thesis by simp
    qed
  qed
qed

lemma multi_all_succeed:
  assumes "set cs = {0..<length fns}" "length rs = length cs"
    and "\<forall>k < length cs. (fns ! (cs ! k)) c = Returns (rs ! k)"
    and "\<forall>j < length fns. (fns ! j) c = Returns None"
  shows "first_error rs = None"
proof (rule first_error_all_nil)
  show "\<forall>r \<in> set rs. r = None"
  proof
    fix r assume "r \<in> set rs"
    then obtain k where k: "k < length rs" "rs ! k = r" by (auto simp: in_set_conv_nth)
    with assms(2) have kc: "k < length cs" by simp
    then have "cs ! k \<in> set cs" by (rule nth_mem)
    with assms(1) have lt: "cs ! k < length fns" by simp
    from assms(3) kc k(2) have "(fns ! (cs ! k)) c = Returns r" by simp
    with lt assms(4) show "r = None" by simp
  qed
qed

subsection \<open>The fan-out can return\<close>

lemma sum_list_map_update:
  fixes f :: "'a \<Rightarrow> nat"
  shows "i < length xs \<Longrightarrow>
    sum_list (map f (xs[i := y])) + f (xs ! i) = sum_list (map f xs) + f y"
proof (induction xs arbitrary: i)
  case Nil
  then show ?case by simp
next
  case (Cons x xs)
  then show ?case by (cases i) auto
qed

lemma multi_progress:
  assumes inv: "multi_inv fns s" and loop: "mmain s = MultiLoop n"
    and ret: "\<forall>i < length fns. \<exists>e. (fns ! i) (mctx s) = Returns e"
  shows "\<exists>a s'. Multi_step fns a s = Some s' \<and> mctx s' = mctx s \<and>
    multi_measure s' < multi_measure s"
proof (cases "errCh s")
  case (Cons e ch)
  with loop have "\<exists>s'. Multi_step fns MultiRecv s = Some s' \<and> mctx s' = mctx s \<and>
      multi_measure s' < multi_measure s"
    by (simp add: Multi_step_def multi_recv_def multi_loop_def multi_measure_def)
  then show ?thesis by blast
next
  case Nil
  from inv loop have n: "n = length (received s)" "n < length fns"
    and len: "length (workers s) = length fns"
    and rep: "reported s = received s @ errCh s"
    and cl: "length (completed s) = length (reported s)"
    and mem: "\<forall>i. i \<in> set (completed s) \<longleftrightarrow> i < length fns \<and> workers s ! i = MwDone"
    by (simp_all add: multi_inv_def)
  have "\<exists>i < length fns. workers s ! i \<noteq> MwDone"
  proof (rule ccontr)
    assume "\<not> (\<exists>i < length fns. workers s ! i \<noteq> MwDone)"
    with mem have "{0..<length fns} \<subseteq> set (completed s)" by auto
    then have "card {0..<length fns} \<le> card (set (completed s))"
      by (intro card_mono) simp_all
    also have "\<dots> \<le> length (completed s)" by (rule card_length)
    finally show False using cl rep Nil n by simp
  qed
  then obtain i where i: "i < length fns" "workers s ! i \<noteq> MwDone" by blast
  show ?thesis
  proof (cases "workers s ! i")
    case MwRun
    from ret i(1) obtain e where e: "(fns ! i) (mctx s) = Returns e" by blast
    have "sum_list (map worker_weight ((workers s)[i := MwSend e])) + 3 =
        sum_list (map worker_weight (workers s)) + 2"
      using sum_list_map_update[of i "workers s" worker_weight "MwSend e"] i(1) len MwRun
      by simp
    with i(1) len MwRun e
    have "\<exists>s'. Multi_step fns (MultiWorker i) s = Some s' \<and> mctx s' = mctx s \<and>
        multi_measure s' < multi_measure s"
      by (simp add: Multi_step_def multi_worker_step_def multi_measure_def)
    then show ?thesis by blast
  next
    case (MwSend e)
    have "sum_list (map worker_weight ((workers s)[i := MwDone])) + 2 =
        sum_list (map worker_weight (workers s))"
      using sum_list_map_update[of i "workers s" worker_weight MwDone] i(1) len MwSend
      by simp
    moreover have "fns \<noteq> []" using i(1) by auto
    ultimately have "\<exists>s'. Multi_step fns (MultiWorker i) s = Some s' \<and> mctx s' = mctx s \<and>
        multi_measure s' < multi_measure s"
      using i(1) len MwSend Nil
      by (simp add: Multi_step_def multi_worker_step_def multi_measure_def chan_send_def)
    then show ?thesis by blast
  next
    case MwDone
    with i(2) show ?thesis by simp
  qed
qed

lemma multi_can_return:
  assumes "multi_inv fns s" "\<forall>i < length fns. \<exists>e. (fns ! i) (mctx s) = Returns e"
  shows "\<exists>sched s' r. Multi_exec fns sched s = Some s' \<and> mmain s' = MultiReturned r \<and>
    mctx s' = mctx s"
  using assms
proof (induction "multi_measure s" arbitrary: s rule: less_induct)
  case less
  show ?case
  proof (cases "mmain s")
    case (MultiReturned r)
    then have "Multi_exec fns [] s = Some s \<and> mmain s = MultiReturned r \<and> mctx s = mctx s"
      by simp
    then show ?thesis by blast
  next
    case (MultiLoop n)
    from multi_progress[OF less.prems(1) MultiLoop less.prems(2)]
    obtain a s1 where step: "Multi_step fns a s = Some s1" and c: "mctx s1 = mctx s"
      and m: "multi_measure s1 < multi_measure s"
      by blast
    have inv1: "multi_inv fns s1" using less.prems(1) step by (rule multi_inv_step)
    from less.hyps[OF m inv1] less.prems(2) c
    obtain sched s' r where "Multi_exec fns sched s1 = Some s'" "mmain s' = MultiReturned r"
      "mctx s' = mctx s1"
      by auto
    with step c have "Multi_exec fns (a # sched) s = Some s' \<and> mmain s' = MultiReturned r \<and>
        mctx s' = mctx s"
      by simp
    then show ?thesis by blast
  qed
qed

lemma Multi_init_ctx [simp]: "mctx (Multi_init fns c) = c"
  by (simp add: Multi_init_def multi_loop_def)

subsection \<open>The fan-out under a context that is done\<close>





section \<open>The shutdown steps run one after the other\<close>

text \<open>
  C1 (amended). In the shutdown phase \<^verbatim>\<open>Start\<close> runs the shutdown steps one at a time, in
  declaration order, in a single background worker: the steps invoked so far are the
  first ones, a step is invoked only after every step before it has returned, and the
  results are received in declaration order, each being what the step of that position
  returned. \<^verbatim>\<open>Start\<close> returns from the shutdown phase only after it has received exactly
  as many results as there are shutdown steps, or on the shutdown timeout, whichever
  comes first.
\<close>

theorem shutdown_steps_sequential:
  assumes "Start st sd opts rte0 sched = Some s"
  shows "sd_invoked s = [0..<length (sd_invoked s)] \<and>
         length (sd_returned s) \<le> length (sd_invoked s) \<and>
         length (sd_invoked s) \<le> Suc (length (sd_returned s)) \<and>
         (\<forall>i < length (sd_returned s). \<exists>c. (sd ! i) c = Returns (sd_returned s ! i)) \<and>
         sd_received s = take (length (sd_received s)) (sd_returned s) \<and>
         (main s = MReturned \<and> ErrStartup (er s) = None \<longrightarrow>
            (length (sd_received s) = length sd \<and>
             ErrsShutdown (er s) = filter (\<lambda>e. e \<noteq> None) (sd_received s)) \<or>
            (length (sd_received s) < length sd \<and>
             ErrsShutdown (er s) =
               filter (\<lambda>e. e \<noteq> None) (sd_received s) @ [Some DeadlineExceeded]))"
proof -
  note seq = shutdown_sequential[OF assms]
  note pre = shutdown_received_prefix[OF assms]
  have "(length (sd_received s) = length sd \<and>
           ErrsShutdown (er s) = filter (\<lambda>e. e \<noteq> None) (sd_received s)) \<or>
        (length (sd_received s) < length sd \<and>
           ErrsShutdown (er s) =
             filter (\<lambda>e. e \<noteq> None) (sd_received s) @ [Some DeadlineExceeded])"
    if "main s = MReturned" "ErrStartup (er s) = None"
    using shutdown_returns_after[OF assms that] by (simp add: non_nil_def)
  with seq pre show ?thesis by blast
qed

theorem shutdown_steps_sequential_witness:
  "\<exists>s. Start [] [\<lambda>c. Returns (Some (UserError ''first'')), \<lambda>c. Returns None,
           \<lambda>c. Returns (Some (UserError ''third''))] [] [None]
          [StWorker, MainRecv, MainRecv, SdWorker, SdWorker, SdWorker, MainRecv, SdWorker,
           SdWorker, SdWorker, MainRecv, SdWorker, SdWorker, SdWorker, MainRecv] = Some s \<and>
       main s = MReturned \<and> sd_invoked s = [0, 1, 2] \<and>
       sd_received s = [Some (UserError ''first''), None, Some (UserError ''third'')] \<and>
       ErrsShutdown (er s) = [Some (UserError ''first''), Some (UserError ''third'')]"
proof -
  have "case Start [] [\<lambda>c. Returns (Some (UserError ''first'')), \<lambda>c. Returns None,
           \<lambda>c. Returns (Some (UserError ''third''))] [] [None]
          [StWorker, MainRecv, MainRecv, SdWorker, SdWorker, SdWorker, MainRecv, SdWorker,
           SdWorker, SdWorker, MainRecv, SdWorker, SdWorker, SdWorker, MainRecv] of
          None \<Rightarrow> False
        | Some s \<Rightarrow> main s = MReturned \<and> ErrStartup (er s) = None \<and>
            length (sd_invoked s) = 3 \<and>
            sd_received s = [Some (UserError ''first''), None, Some (UserError ''third'')]"
    by code_simp
  then obtain s where run: "Start [] [\<lambda>c. Returns (Some (UserError ''first'')),
           \<lambda>c. Returns None, \<lambda>c. Returns (Some (UserError ''third''))] [] [None]
          [StWorker, MainRecv, MainRecv, SdWorker, SdWorker, SdWorker, MainRecv, SdWorker,
           SdWorker, SdWorker, MainRecv, SdWorker, SdWorker, SdWorker, MainRecv] = Some s"
    and fin: "main s = MReturned" "ErrStartup (er s) = None" "length (sd_invoked s) = 3"
      "sd_received s = [Some (UserError ''first''), None, Some (UserError ''third'')]"
    by (auto split: option.splits)
  from shutdown_steps_sequential[OF run] fin
  have "sd_invoked s = [0..<3] \<and>
      ErrsShutdown (er s) = [Some (UserError ''first''), Some (UserError ''third'')]"
    by simp
  with run fin show ?thesis by (auto simp: upt_rec)
qed

theorem shutdown_concurrent_counterexample:
  "\<not> (\<exists>sched s. Start [] [\<lambda>c. Blocked, \<lambda>c. Returns None] [] [] sched = Some s \<and>
        1 \<in> set (sd_invoked s))"
proof
  assume "\<exists>sched s. Start [] [\<lambda>c. Blocked, \<lambda>c. Returns None] [] [] sched = Some s \<and>
        1 \<in> set (sd_invoked s)"
  then obtain sched s
    where run: "Start [] [\<lambda>c. Blocked, \<lambda>c. Returns None] [] [] sched = Some s"
      and one: "1 \<in> set (sd_invoked s)"
    by blast
  note seq = shutdown_sequential[OF run]
  have "sd_returned s = []"
  proof (rule ccontr)
    assume "sd_returned s \<noteq> []"
    then have pos: "0 < length (sd_returned s)" by simp
    note seq[THEN conjunct2, THEN conjunct2, THEN conjunct2]
    from this[rule_format, OF pos] show False by simp
  qed
  with seq have "length (sd_invoked s) \<le> 1" by simp
  moreover from seq have "set (sd_invoked s) = {0..<length (sd_invoked s)}"
    by (metis atLeastLessThan_upt)
  ultimately show False using one by auto
qed

section \<open>Startup stops at the first error\<close>




section \<open>The shutdown timeout ends the collection\<close>

text \<open>
  C3 (amended). Let \<^verbatim>\<open>Start\<close> be collecting in the shutdown loop, with \<open>n\<close> results received
  out of those of the \<open>length sd\<close> steps, and let the shutdown timeout have expired. Then
  the \<^verbatim>\<open>Done()\<close> case of the \<^verbatim>\<open>select\<close> is ready, and taking it makes \<^verbatim>\<open>Start\<close> return at once,
  with no step of any worker: \<^verbatim>\<open>ErrsShutdown\<close> is then the non-nil results received, in the
  order received, followed by the one timeout error; they are the first \<open>n\<close> results the
  steps returned, and when all \<open>n\<close> are errors they are exactly those \<open>n\<close> errors. When no
  reported result is waiting in the channel, the \<^verbatim>\<open>select\<close> has nothing else to take. (A
  result that waits in the channel, or that arrives before the \<^verbatim>\<open>select\<close> runs, may be
  received instead, or be left behind: the \<^verbatim>\<open>select\<close> takes either ready case; see
  \<open>shutdown_timeout_counterexample\<close>.) Whenever \<^verbatim>\<open>Start\<close> has returned from the shutdown
  phase with fewer results received than there are steps, \<^verbatim>\<open>ErrsShutdown\<close> is the non-nil
  results received, in order, followed by exactly one timeout error. And if step \<open>J\<close> never
  returns, so that the steps from \<open>J\<close> on never report, then no more than \<open>J\<close> results are
  ever reported, and \<^verbatim>\<open>Start\<close> returns from the shutdown phase only through the timeout:
  \<^verbatim>\<open>ErrsShutdown\<close> is the non-nil results received, in order, followed by exactly one
  timeout error, and it is exactly the \<open>J\<close> step errors followed by the timeout error when
  \<^verbatim>\<open>Start\<close> had received \<open>J\<close> results, all of them errors.
\<close>

theorem shutdown_timeout_stops_collecting:
  assumes "Start st sd opts rte0 sched = Some s"
  shows "(\<forall>n. main s = MShutdownLoop n \<and> ctx_Done (sdCtx s) \<longrightarrow>
            n = length (sd_received s) \<and> n < length sd \<and>
            sd_received s = take n (sd_returned s) \<and>
            (fnErrs s = [] \<longrightarrow> Start_step st sd MainRecv s = None) \<and>
            (\<exists>s'. Start st sd opts rte0 (sched @ [MainDone]) = Some s' \<and>
               main s' = MReturned \<and>
               sd_received s' = sd_received s \<and> sd_invoked s' = sd_invoked s \<and>
               ErrsShutdown (er s') =
                 filter (\<lambda>e. e \<noteq> None) (sd_received s) @ [Some DeadlineExceeded] \<and>
               (None \<notin> set (sd_received s) \<longrightarrow>
                  ErrsShutdown (er s') = sd_received s @ [Some DeadlineExceeded]))) \<and>
         (main s = MReturned \<and> ErrStartup (er s) = None \<and>
          length (sd_received s) < length sd \<longrightarrow>
            sd_received s = take (length (sd_received s)) (sd_returned s) \<and>
            ErrsShutdown (er s) =
              filter (\<lambda>e. e \<noteq> None) (sd_received s) @ [Some DeadlineExceeded]) \<and>
         (\<forall>J. J < length sd \<and> (\<forall>c. (sd ! J) c = Blocked) \<longrightarrow>
            length (sd_returned s) \<le> J \<and>
            (main s = MReturned \<and> ErrStartup (er s) = None \<longrightarrow>
               sd_received s = take (length (sd_received s)) (sd_returned s) \<and>
               ErrsShutdown (er s) =
                 filter (\<lambda>e. e \<noteq> None) (sd_received s) @ [Some DeadlineExceeded] \<and>
               (length (sd_received s) = J \<and> None \<notin> set (sd_received s) \<longrightarrow>
                  length (sd_returned s) = J \<and>
                  ErrsShutdown (er s) = sd_returned s @ [Some DeadlineExceeded])))"
proof -
  have at_once: "n = length (sd_received s) \<and> n < length sd \<and>
      sd_received s = take n (sd_returned s) \<and>
      (fnErrs s = [] \<longrightarrow> Start_step st sd MainRecv s = None) \<and>
      (\<exists>s'. Start st sd opts rte0 (sched @ [MainDone]) = Some s' \<and>
         main s' = MReturned \<and>
         sd_received s' = sd_received s \<and> sd_invoked s' = sd_invoked s \<and>
         ErrsShutdown (er s') =
           filter (\<lambda>e. e \<noteq> None) (sd_received s) @ [Some DeadlineExceeded] \<and>
         (None \<notin> set (sd_received s) \<longrightarrow>
            ErrsShutdown (er s') = sd_received s @ [Some DeadlineExceeded]))"
    if loop: "main s = MShutdownLoop n" and dn: "ctx_Done (sdCtx s)"
    for n
  proof -
    note col = shutdown_collecting[OF assms loop]
    have pre: "sd_received s = take n (sd_returned s)"
      using shutdown_received_prefix[OF assms] col by simp
    have norecv: "fnErrs s = [] \<longrightarrow> Start_step st sd MainRecv s = None"
      using loop by (simp add: Start_step_def main_recv_def)
    have err: "ctx_Err (sdCtx s) = Some DeadlineExceeded"
      using col dn by simp
    let ?s' = "Start_return
        (s\<lparr> er := (er s)\<lparr> ErrsShutdown := ErrsShutdown (er s) @ [ctx_Err (sdCtx s)] \<rparr> \<rparr>)"
    have step: "Start st sd opts rte0 (sched @ [MainDone]) = Some ?s'"
      using loop dn by (simp add: Start_append[OF assms] Start_step_def main_done_def)
    have fin: "main ?s' = MReturned" "sd_received ?s' = sd_received s"
      "sd_invoked ?s' = sd_invoked s"
      "ErrsShutdown (er ?s') = non_nil (sd_received s) @ [Some DeadlineExceeded]"
      using col err by (simp_all add: Start_return_def)
    have "None \<notin> set (sd_received s) \<longrightarrow>
        ErrsShutdown (er ?s') = sd_received s @ [Some DeadlineExceeded]"
      using fin(4) by (simp add: non_nil_all)
    with step fin have "\<exists>s'. Start st sd opts rte0 (sched @ [MainDone]) = Some s' \<and>
        main s' = MReturned \<and>
        sd_received s' = sd_received s \<and> sd_invoked s' = sd_invoked s \<and>
        ErrsShutdown (er s') =
          filter (\<lambda>e. e \<noteq> None) (sd_received s) @ [Some DeadlineExceeded] \<and>
        (None \<notin> set (sd_received s) \<longrightarrow>
           ErrsShutdown (er s') = sd_received s @ [Some DeadlineExceeded])"
      unfolding non_nil_def by blast
    with col pre norecv show ?thesis by simp
  qed
  have cut: "sd_received s = take (length (sd_received s)) (sd_returned s) \<and>
      ErrsShutdown (er s) =
        filter (\<lambda>e. e \<noteq> None) (sd_received s) @ [Some DeadlineExceeded]"
    if "main s = MReturned" "ErrStartup (er s) = None" "length (sd_received s) < length sd"
    using shutdown_returns_after[OF assms that(1,2)] shutdown_received_prefix[OF assms] that(3)
    by (simp add: non_nil_def)
  have never: "length (sd_returned s) \<le> J \<and>
      (main s = MReturned \<and> ErrStartup (er s) = None \<longrightarrow>
         sd_received s = take (length (sd_received s)) (sd_returned s) \<and>
         ErrsShutdown (er s) =
           filter (\<lambda>e. e \<noteq> None) (sd_received s) @ [Some DeadlineExceeded] \<and>
         (length (sd_received s) = J \<and> None \<notin> set (sd_received s) \<longrightarrow>
            length (sd_returned s) = J \<and>
            ErrsShutdown (er s) = sd_returned s @ [Some DeadlineExceeded]))"
    if lt: "J < length sd" and bl: "\<forall>c. (sd ! J) c = Blocked" for J
  proof -
    have bound: "length (sd_returned s) \<le> J"
      using shutdown_blocked_bound[OF assms bl] .
    have pre: "sd_received s = take (length (sd_received s)) (sd_returned s)"
      using shutdown_received_prefix[OF assms] .
    have "length (sd_received s) = min (length (sd_returned s)) (length (sd_received s))"
      using arg_cong[OF pre, of length] by (simp only: length_take)
    then have "length (sd_received s) \<le> length (sd_returned s)" by arith
    with bound lt have few: "length (sd_received s) < length sd" by simp
    have all: "length (sd_returned s) = J \<and> sd_received s = sd_returned s"
      if "length (sd_received s) = J"
    proof -
      have "sd_received s = take J (sd_returned s)"
        using pre unfolding that .
      with bound have eq: "sd_received s = sd_returned s" by simp
      with that show ?thesis by simp
    qed
    have ret: "main s = MReturned \<and> ErrStartup (er s) = None \<longrightarrow>
         sd_received s = take (length (sd_received s)) (sd_returned s) \<and>
         ErrsShutdown (er s) =
           filter (\<lambda>e. e \<noteq> None) (sd_received s) @ [Some DeadlineExceeded] \<and>
         (length (sd_received s) = J \<and> None \<notin> set (sd_received s) \<longrightarrow>
            length (sd_returned s) = J \<and>
            ErrsShutdown (er s) = sd_returned s @ [Some DeadlineExceeded])"
    proof (rule impI)
      assume "main s = MReturned \<and> ErrStartup (er s) = None"
      then have r: "main s = MReturned" "ErrStartup (er s) = None" by simp_all
      have errs: "ErrsShutdown (er s) =
          filter (\<lambda>e. e \<noteq> None) (sd_received s) @ [Some DeadlineExceeded]"
        using cut[OF r few] by (rule conjunct2)
      have "length (sd_returned s) = J \<and>
          ErrsShutdown (er s) = sd_returned s @ [Some DeadlineExceeded]"
        if "length (sd_received s) = J" "None \<notin> set (sd_received s)"
      proof -
        have "non_nil (sd_received s) = sd_received s"
          using that(2) by (rule non_nil_all)
        then have "ErrsShutdown (er s) = sd_received s @ [Some DeadlineExceeded]"
          using errs by (simp add: non_nil_def)
        with all[OF that(1)] show ?thesis by simp
      qed
      with pre errs
      show "sd_received s = take (length (sd_received s)) (sd_returned s) \<and>
         ErrsShutdown (er s) =
           filter (\<lambda>e. e \<noteq> None) (sd_received s) @ [Some DeadlineExceeded] \<and>
         (length (sd_received s) = J \<and> None \<notin> set (sd_received s) \<longrightarrow>
            length (sd_returned s) = J \<and>
            ErrsShutdown (er s) = sd_returned s @ [Some DeadlineExceeded])"
        by blast
    qed
    from bound ret show ?thesis by (rule conjI)
  qed
  from at_once cut never show ?thesis by blast
qed

theorem shutdown_timeout_stops_collecting_witness:
  "\<exists>s s'. Start [] [\<lambda>c. Returns (Some (UserError ''a'')), \<lambda>c. Returns (Some (UserError ''b'')),
             \<lambda>c. Blocked, \<lambda>c. Returns None] [WithShutdownTimeout 3] []
            [StWorker, MainRecv, MainSignal syscall_SIGTERM, SdWorker, SdWorker, SdWorker,
             MainRecv, SdWorker, SdWorker, SdWorker, MainRecv, SdWorker, FireShutdown] = Some s \<and>
          main s = MShutdownLoop 2 \<and> sd_invoked s = [0, 1, 2] \<and>
          sd_received s = [Some (UserError ''a''), Some (UserError ''b'')] \<and>
          Start [] [\<lambda>c. Returns (Some (UserError ''a'')), \<lambda>c. Returns (Some (UserError ''b'')),
             \<lambda>c. Blocked, \<lambda>c. Returns None] [WithShutdownTimeout 3] []
            ([StWorker, MainRecv, MainSignal syscall_SIGTERM, SdWorker, SdWorker, SdWorker,
              MainRecv, SdWorker, SdWorker, SdWorker, MainRecv, SdWorker, FireShutdown] @
             [MainDone]) = Some s' \<and>
          main s' = MReturned \<and> sd_invoked s' = [0, 1, 2] \<and>
          ErrsShutdown (er s') =
            [Some (UserError ''a''), Some (UserError ''b''), Some DeadlineExceeded]"
proof -
  have "case Start [] [\<lambda>c. Returns (Some (UserError ''a'')),
             \<lambda>c. Returns (Some (UserError ''b'')),
             \<lambda>c. Blocked, \<lambda>c. Returns None] [WithShutdownTimeout 3] []
            [StWorker, MainRecv, MainSignal syscall_SIGTERM, SdWorker, SdWorker, SdWorker,
             MainRecv, SdWorker, SdWorker, SdWorker, MainRecv, SdWorker, FireShutdown] of
          None \<Rightarrow> False
        | Some s \<Rightarrow> main s = MShutdownLoop 2 \<and> ctx_Done (sdCtx s) \<and> fnErrs s = [] \<and>
            sd_invoked s = [0, 1, 2] \<and>
            sd_received s = [Some (UserError ''a''), Some (UserError ''b'')]"
    by code_simp
  then obtain s where run: "Start [] [\<lambda>c. Returns (Some (UserError ''a'')),
             \<lambda>c. Returns (Some (UserError ''b'')),
             \<lambda>c. Blocked, \<lambda>c. Returns None] [WithShutdownTimeout 3] []
            [StWorker, MainRecv, MainSignal syscall_SIGTERM, SdWorker, SdWorker, SdWorker,
             MainRecv, SdWorker, SdWorker, SdWorker, MainRecv, SdWorker, FireShutdown] = Some s"
    and st: "main s = MShutdownLoop 2" "ctx_Done (sdCtx s)" "fnErrs s = []"
      "sd_invoked s = [0, 1, 2]"
      "sd_received s = [Some (UserError ''a''), Some (UserError ''b'')]"
    by (auto split: option.splits)
  from shutdown_timeout_stops_collecting[OF run] st(1-3)
  obtain s' where run': "Start [] [\<lambda>c. Returns (Some (UserError ''a'')),
             \<lambda>c. Returns (Some (UserError ''b'')),
             \<lambda>c. Blocked, \<lambda>c. Returns None] [WithShutdownTimeout 3] []
            ([StWorker, MainRecv, MainSignal syscall_SIGTERM, SdWorker, SdWorker, SdWorker,
              MainRecv, SdWorker, SdWorker, SdWorker, MainRecv, SdWorker, FireShutdown] @
             [MainDone]) = Some s'"
    and fin: "main s' = MReturned" "sd_invoked s' = sd_invoked s"
      "ErrsShutdown (er s') =
         filter (\<lambda>e. e \<noteq> None) (sd_received s) @ [Some DeadlineExceeded]"
    by blast
  from fin(3) st(5) have "ErrsShutdown (er s') =
      [Some (UserError ''a''), Some (UserError ''b''), Some DeadlineExceeded]"
    by simp
  with run st run' fin(1,2) show ?thesis by simp
qed

theorem shutdown_timeout_counterexample:
  "(\<exists>s s'. Start [] [\<lambda>c. Returns (Some (UserError ''a'')), \<lambda>c. Returns (Some (UserError ''b''))]
             [WithShutdownTimeout 5] []
             [StWorker, MainRecv, MainSignal syscall_SIGTERM, FireShutdown] = Some s \<and>
           main s = MShutdownLoop 0 \<and> ctx_Done (sdCtx s) \<and>
           sd_returned s = [] \<and> sd_received s = [] \<and> fnErrs s = [] \<and>
           Start [] [\<lambda>c. Returns (Some (UserError ''a'')), \<lambda>c. Returns (Some (UserError ''b''))]
             [WithShutdownTimeout 5] []
             ([StWorker, MainRecv, MainSignal syscall_SIGTERM, FireShutdown] @
              [SdWorker, SdWorker, SdWorker, MainRecv, SdWorker, SdWorker, SdWorker, MainRecv])
             = Some s' \<and>
           main s' = MReturned \<and>
           ErrsShutdown (er s') = [Some (UserError ''a''), Some (UserError ''b'')]) \<and>
   (\<exists>s s'. Start [] [\<lambda>c. Returns (Some (UserError ''a'')), \<lambda>c. Blocked]
             [WithShutdownTimeout 5] []
             [StWorker, MainRecv, MainSignal syscall_SIGTERM, SdWorker, SdWorker, SdWorker,
              SdWorker, FireShutdown] = Some s \<and>
           main s = MShutdownLoop 0 \<and> ctx_Done (sdCtx s) \<and>
           sd_returned s = [Some (UserError ''a'')] \<and> fnErrs s = [Some (UserError ''a'')] \<and>
           Start [] [\<lambda>c. Returns (Some (UserError ''a'')), \<lambda>c. Blocked]
             [WithShutdownTimeout 5] []
             ([StWorker, MainRecv, MainSignal syscall_SIGTERM, SdWorker, SdWorker, SdWorker,
               SdWorker, FireShutdown] @ [MainDone]) = Some s' \<and>
           main s' = MReturned \<and> ErrsShutdown (er s') = [Some DeadlineExceeded])"
proof -
  have one: "case Start [] [\<lambda>c. Returns (Some (UserError ''a'')),
               \<lambda>c. Returns (Some (UserError ''b''))]
             [WithShutdownTimeout 5] []
             [StWorker, MainRecv, MainSignal syscall_SIGTERM, FireShutdown] of
          None \<Rightarrow> False
        | Some s \<Rightarrow> main s = MShutdownLoop 0 \<and> ctx_Done (sdCtx s) \<and>
            sd_returned s = [] \<and> sd_received s = [] \<and> fnErrs s = []"
    by code_simp
  have two: "case Start [] [\<lambda>c. Returns (Some (UserError ''a'')),
               \<lambda>c. Returns (Some (UserError ''b''))]
             [WithShutdownTimeout 5] []
             ([StWorker, MainRecv, MainSignal syscall_SIGTERM, FireShutdown] @
              [SdWorker, SdWorker, SdWorker, MainRecv, SdWorker, SdWorker, SdWorker, MainRecv]) of
          None \<Rightarrow> False
        | Some s' \<Rightarrow> main s' = MReturned \<and>
            ErrsShutdown (er s') = [Some (UserError ''a''), Some (UserError ''b'')]"
    by code_simp
  have three: "case Start [] [\<lambda>c. Returns (Some (UserError ''a'')), \<lambda>c. Blocked]
             [WithShutdownTimeout 5] []
             [StWorker, MainRecv, MainSignal syscall_SIGTERM, SdWorker, SdWorker, SdWorker,
              SdWorker, FireShutdown] of
          None \<Rightarrow> False
        | Some s \<Rightarrow> main s = MShutdownLoop 0 \<and> ctx_Done (sdCtx s) \<and>
            sd_returned s = [Some (UserError ''a'')] \<and> fnErrs s = [Some (UserError ''a'')]"
    by code_simp
  have four: "case Start [] [\<lambda>c. Returns (Some (UserError ''a'')), \<lambda>c. Blocked]
             [WithShutdownTimeout 5] []
             ([StWorker, MainRecv, MainSignal syscall_SIGTERM, SdWorker, SdWorker, SdWorker,
               SdWorker, FireShutdown] @ [MainDone]) of
          None \<Rightarrow> False
        | Some s' \<Rightarrow> main s' = MReturned \<and> ErrsShutdown (er s') = [Some DeadlineExceeded]"
    by code_simp
  from one two have "\<exists>s s'. Start [] [\<lambda>c. Returns (Some (UserError ''a'')),
               \<lambda>c. Returns (Some (UserError ''b''))]
             [WithShutdownTimeout 5] []
             [StWorker, MainRecv, MainSignal syscall_SIGTERM, FireShutdown] = Some s \<and>
           main s = MShutdownLoop 0 \<and> ctx_Done (sdCtx s) \<and>
           sd_returned s = [] \<and> sd_received s = [] \<and> fnErrs s = [] \<and>
           Start [] [\<lambda>c. Returns (Some (UserError ''a'')), \<lambda>c. Returns (Some (UserError ''b''))]
             [WithShutdownTimeout 5] []
             ([StWorker, MainRecv, MainSignal syscall_SIGTERM, FireShutdown] @
              [SdWorker, SdWorker, SdWorker, MainRecv, SdWorker, SdWorker, SdWorker, MainRecv])
             = Some s' \<and>
           main s' = MReturned \<and>
           ErrsShutdown (er s') = [Some (UserError ''a''), Some (UserError ''b'')]"
    by (auto split: option.splits)
  moreover from three four have "\<exists>s s'. Start [] [\<lambda>c. Returns (Some (UserError ''a'')), \<lambda>c. Blocked]
             [WithShutdownTimeout 5] []
             [StWorker, MainRecv, MainSignal syscall_SIGTERM, SdWorker, SdWorker, SdWorker,
              SdWorker, FireShutdown] = Some s \<and>
           main s = MShutdownLoop 0 \<and> ctx_Done (sdCtx s) \<and>
           sd_returned s = [Some (UserError ''a'')] \<and> fnErrs s = [Some (UserError ''a'')] \<and>
           Start [] [\<lambda>c. Returns (Some (UserError ''a'')), \<lambda>c. Blocked]
             [WithShutdownTimeout 5] []
             ([StWorker, MainRecv, MainSignal syscall_SIGTERM, SdWorker, SdWorker, SdWorker,
               SdWorker, FireShutdown] @ [MainDone]) = Some s' \<and>
           main s' = MReturned \<and> ErrsShutdown (er s') = [Some DeadlineExceeded]"
    by (auto split: option.splits)
  ultimately show ?thesis by blast
qed

section \<open>The fan-out returns the first error\<close>

text \<open>
  C4. When its context is not done, the step that \<^verbatim>\<open>Multi\<close> returns for \<open>K\<close> functions
  returns only after all \<open>K\<close> have reported (each once, in some order, the completion
  order), and it returns the first non-nil error in completion order: nil when every
  function returned nil, and, when exactly one function fails, that function's error
  whatever the order. When every function returns, the step does return.
\<close>

theorem Multi_first_error:
  "(\<forall>sched s r. Multi fns c sched = Some s \<and> mmain s = MultiReturned r \<and>
       \<not> ctx_Done (mctx s) \<longrightarrow>
       distinct (completed s) \<and> set (completed s) = {0..<length fns} \<and>
       (\<forall>i < length fns. workers s ! i = MwDone) \<and>
       length (reported s) = length fns \<and>
       (\<forall>k < length fns. (fns ! (completed s ! k)) c = Returns (reported s ! k)) \<and>
       r = first_error (reported s) \<and>
       ((\<forall>j < length fns. (fns ! j) c = Returns None) \<longrightarrow> r = None) \<and>
       (\<forall>i e. i < length fns \<and> (fns ! i) c = Returns (Some e) \<and>
          (\<forall>j < length fns. j \<noteq> i \<longrightarrow> (fns ! j) c = Returns None) \<longrightarrow> r = Some e)) \<and>
   (\<not> ctx_Done c \<and> (\<forall>i < length fns. \<exists>e. (fns ! i) c = Returns e) \<longrightarrow>
      (\<exists>sched s r. Multi fns c sched = Some s \<and> mmain s = MultiReturned r \<and>
         \<not> ctx_Done (mctx s)))"
proof -
  have safe: "distinct (completed s) \<and> set (completed s) = {0..<length fns} \<and>
       (\<forall>i < length fns. workers s ! i = MwDone) \<and>
       length (reported s) = length fns \<and>
       (\<forall>k < length fns. (fns ! (completed s ! k)) c = Returns (reported s ! k)) \<and>
       r = first_error (reported s) \<and>
       ((\<forall>j < length fns. (fns ! j) c = Returns None) \<longrightarrow> r = None) \<and>
       (\<forall>i e. i < length fns \<and> (fns ! i) c = Returns (Some e) \<and>
          (\<forall>j < length fns. j \<noteq> i \<longrightarrow> (fns ! j) c = Returns None) \<longrightarrow> r = Some e)"
    if run: "Multi fns c sched = Some s" and ret: "mmain s = MultiReturned r"
      and live: "\<not> ctx_Done (mctx s)" for sched s r
  proof -
    note f = multi_returned_live[OF run ret live]
    from f have d: "distinct (completed s)" and st: "set (completed s) = {0..<length fns}"
      and lr: "length (reported s) = length (completed s)"
      and lc: "length (completed s) = length fns"
      and vals: "\<forall>k < length (completed s). (fns ! (completed s ! k)) c = Returns (reported s ! k)"
      and r: "r = first_error (reported s)"
      by simp_all
    have nil: "r = None" if "\<forall>j < length fns. (fns ! j) c = Returns None"
      unfolding r using st lr vals that by (rule multi_all_succeed)
    have one: "r = Some e"
      if "i < length fns" "(fns ! i) c = Returns (Some e)"
        "\<forall>j < length fns. j \<noteq> i \<longrightarrow> (fns ! j) c = Returns None" for i e
      unfolding r using d st lr vals that by (rule multi_single_failure)
    from f nil one show ?thesis by blast
  qed
  have live: "\<exists>sched s r. Multi fns c sched = Some s \<and> mmain s = MultiReturned r \<and>
      \<not> ctx_Done (mctx s)"
    if "\<not> ctx_Done c" "\<forall>i < length fns. \<exists>e. (fns ! i) c = Returns e"
    using multi_can_return[of fns "Multi_init fns c"] that
    by (auto simp: multi_inv_init Multi_def)
  from safe live show ?thesis by blast
qed

theorem Multi_first_error_witness:
  "\<exists>s. Multi [\<lambda>c. Returns None, \<lambda>c. Returns (Some (UserError ''cache'')), \<lambda>c. Returns None]
          Background
          [MultiWorker 2, MultiWorker 2, MultiWorker 1, MultiWorker 1, MultiRecv,
           MultiWorker 0, MultiWorker 0, MultiRecv, MultiRecv] = Some s \<and>
       completed s = [2, 1, 0] \<and> mmain s = MultiReturned (Some (UserError ''cache''))"
proof -
  let ?fns = "[\<lambda>c. Returns None, \<lambda>c. Returns (Some (UserError ''cache'')),
    \<lambda>c. Returns None] :: Func list"
  have "case Multi ?fns Background
          [MultiWorker 2, MultiWorker 2, MultiWorker 1, MultiWorker 1, MultiRecv,
           MultiWorker 0, MultiWorker 0, MultiRecv, MultiRecv] of
          None \<Rightarrow> False
        | Some s \<Rightarrow> completed s = [2, 1, 0] \<and> mctx s = Background \<and>
            (case mmain s of MultiLoop n \<Rightarrow> False | MultiReturned r \<Rightarrow> True)"
    by code_simp
  then obtain s r where run: "Multi ?fns Background
          [MultiWorker 2, MultiWorker 2, MultiWorker 1, MultiWorker 1, MultiRecv,
           MultiWorker 0, MultiWorker 0, MultiRecv, MultiRecv] = Some s"
    and fin: "completed s = [2, 1, 0]" "mctx s = Background" "mmain s = MultiReturned r"
    by (auto split: option.splits multi_main.splits)
  have live: "\<not> ctx_Done (mctx s)" using fin(2) by (simp add: ctx_Done_def)
  have one: "Suc 0 < length ?fns \<and> (?fns ! Suc 0) Background = Returns (Some (UserError ''cache'')) \<and>
      (\<forall>j < length ?fns. j \<noteq> Suc 0 \<longrightarrow> (?fns ! j) Background = Returns None)"
    by (auto simp: nth_Cons')
  from Multi_first_error[of ?fns Background, THEN conjunct1, rule_format, of _ s r]
    run fin(3) live
  have "\<forall>i e. i < length ?fns \<and> (?fns ! i) Background = Returns (Some e) \<and>
      (\<forall>j < length ?fns. j \<noteq> i \<longrightarrow> (?fns ! j) Background = Returns None) \<longrightarrow> r = Some e"
    by blast
  with one have "r = Some (UserError ''cache'')" by blast
  with run fin show ?thesis by blast
qed

section \<open>The fan-out under a cancelled context\<close>




section \<open>The explicit shutdown request is first-wins\<close>

lemma Shutdown_cases:
  "length ch \<le> rte_cap \<Longrightarrow> Shutdown x ch = (if ch = [] then [x] else ch)"
  by (auto simp: Shutdown_def chan_send_def rte_cap_def)

lemma Shutdown_calls_pending:
  "ch \<noteq> [] \<Longrightarrow> length ch \<le> rte_cap \<Longrightarrow> foldl (\<lambda>ch x. Shutdown x ch) ch es = ch"
  by (induction es) (simp_all add: Shutdown_cases)

text \<open>
  C6. \<^verbatim>\<open>Shutdown\<close> never blocks and the first call wins: a call stores its error (which
  may be nil) into the channel of capacity 1 exactly when no value is pending there, and
  leaves the channel as it is when one is; so after any sequence of calls the channel
  holds at most one value, the one that was pending or else the first one sent.
\<close>

theorem Shutdown_first_wins:
  assumes "length ch0 \<le> rte_cap"
  shows "(Shutdown e ch0 = ch0 @ [e]) = (ch0 = []) \<and>
         (ch0 \<noteq> [] \<longrightarrow> Shutdown e ch0 = ch0) \<and>
         length (Shutdown e ch0) \<le> rte_cap \<and>
         foldl (\<lambda>ch x. Shutdown x ch) ch0 es = (if ch0 = [] then take 1 es else ch0)"
proof -
  have "foldl (\<lambda>ch x. Shutdown x ch) ch0 es = (if ch0 = [] then take 1 es else ch0)"
  proof (cases "ch0 = []")
    case True
    show ?thesis
    proof (cases es)
      case Nil
      with True show ?thesis by simp
    next
      case (Cons x xs)
      have "foldl (\<lambda>ch x. Shutdown x ch) [x] xs = [x]"
        by (rule Shutdown_calls_pending) (simp_all add: rte_cap_def)
      with True Cons show ?thesis by (simp add: Shutdown_cases)
    qed
  next
    case False
    with assms show ?thesis by (simp add: Shutdown_calls_pending)
  qed
  moreover have "length (Shutdown e ch0) \<le> rte_cap"
    using assms by (simp add: Shutdown_cases rte_cap_def)
  ultimately show ?thesis using assms by (simp add: Shutdown_cases)
qed

theorem Shutdown_first_wins_witness:
  "(Shutdown (Some (UserError ''late'')) [] = [] @ [Some (UserError ''late'')]) = (([]::error option list) = []) \<and>
   foldl (\<lambda>ch x. Shutdown x ch) [] [Some (UserError ''first''), None, Some (UserError ''third'')]
     = [Some (UserError ''first'')] \<and>
   foldl (\<lambda>ch x. Shutdown x ch) [None] [Some (UserError ''first'')] = [None]"
  using Shutdown_first_wins[of "[]" "Some (UserError ''late'')"
      "[Some (UserError ''first''), None, Some (UserError ''third'')]"]
    Shutdown_first_wins[of "[None]" "None" "[Some (UserError ''first'')]"]
  by (simp add: rte_cap_def)

section \<open>The shape of the exit reason\<close>

text \<open>
  C7 (amended). In every state of every run of \<^verbatim>\<open>Start\<close>, and so for every exit reason it
  returns, exactly one of two cases holds: (a) \<^verbatim>\<open>ErrStartup\<close> is non-nil and \<^verbatim>\<open>OsSignal\<close>,
  \<^verbatim>\<open>ErrRuntime\<close> and \<^verbatim>\<open>ErrsShutdown\<close> are empty; or (b) \<^verbatim>\<open>ErrStartup\<close> is nil and at most
  one of \<^verbatim>\<open>OsSignal\<close> and \<^verbatim>\<open>ErrRuntime\<close> is non-nil (both are nil when the trigger was
  \<^verbatim>\<open>Shutdown(nil)\<close>), with any number of shutdown errors.
\<close>

theorem exit_reason_shape:
  assumes "Start st sd opts rte0 sched = Some s"
  shows "(ErrStartup (er s) \<noteq> None \<and> OsSignal (er s) = None \<and> ErrRuntime (er s) = None \<and>
          ErrsShutdown (er s) = []) \<noteq>
         (ErrStartup (er s) = None \<and> (OsSignal (er s) = None \<or> ErrRuntime (er s) = None))"
proof -
  have "trigger_inv sd s"
    using Start_inv_run[OF assms] by (simp add: Start_inv_def)
  then show ?thesis
    by (auto simp: trigger_inv_def)
qed

theorem exit_reason_shape_witness:
  "\<exists>s. Start [\<lambda>c. Returns None] [\<lambda>c. Returns (Some (UserError ''close''))] [] []
          [StWorker, StWorker, StWorker, MainRecv, MainSignal os_Interrupt, SdWorker,
           SdWorker, SdWorker, MainRecv] = Some s \<and>
       main s = MReturned \<and>
       er s = \<lparr> OsSignal = Some os_Interrupt, ErrStartup = None, ErrRuntime = None,
                ErrsShutdown = [Some (UserError ''close'')] \<rparr> \<and>
       ((ErrStartup (er s) \<noteq> None \<and> OsSignal (er s) = None \<and> ErrRuntime (er s) = None \<and>
          ErrsShutdown (er s) = []) \<noteq>
        (ErrStartup (er s) = None \<and> (OsSignal (er s) = None \<or> ErrRuntime (er s) = None)))"
proof -
  have "case Start [\<lambda>c. Returns None] [\<lambda>c. Returns (Some (UserError ''close''))] [] []
          [StWorker, StWorker, StWorker, MainRecv, MainSignal os_Interrupt, SdWorker,
           SdWorker, SdWorker, MainRecv] of
          None \<Rightarrow> False
        | Some s \<Rightarrow> main s = MReturned \<and>
            er s = \<lparr> OsSignal = Some os_Interrupt, ErrStartup = None, ErrRuntime = None,
                     ErrsShutdown = [Some (UserError ''close'')] \<rparr>"
    by code_simp
  then obtain s where run: "Start [\<lambda>c. Returns None]
      [\<lambda>c. Returns (Some (UserError ''close''))] [] []
          [StWorker, StWorker, StWorker, MainRecv, MainSignal os_Interrupt, SdWorker,
           SdWorker, SdWorker, MainRecv] = Some s"
    and fin: "main s = MReturned"
      "er s = \<lparr> OsSignal = Some os_Interrupt, ErrStartup = None, ErrRuntime = None,
                ErrsShutdown = [Some (UserError ''close'')] \<rparr>"
    by (auto split: option.splits)
  from exit_reason_shape[OF run] run fin show ?thesis by blast
qed

theorem exit_reason_xor_counterexample:
  "\<not> (\<forall>sched s. Start [] [] [] [] sched = Some s \<and> main s = MReturned \<longrightarrow>
        (ErrStartup (er s) \<noteq> None \<and> OsSignal (er s) = None \<and> ErrRuntime (er s) = None \<and>
         ErrsShutdown (er s) = []) \<or>
        (ErrStartup (er s) = None \<and> (OsSignal (er s) \<noteq> None) \<noteq> (ErrRuntime (er s) \<noteq> None)))"
proof -
  have "case Start [] [] [] [] [StWorker, MainRecv, CallShutdown None, MainRecv] of
          None \<Rightarrow> False
        | Some s \<Rightarrow> main s = MReturned \<and> ErrStartup (er s) = None \<and>
            OsSignal (er s) = None \<and> ErrRuntime (er s) = None"
    by code_simp
  then obtain s where "Start [] [] [] [] [StWorker, MainRecv, CallShutdown None, MainRecv] = Some s"
    and "main s = MReturned" "ErrStartup (er s) = None" "OsSignal (er s) = None"
      "ErrRuntime (er s) = None"
    by (auto split: option.splits)
  then show ?thesis by blast
qed

section \<open>Options that do not resolve\<close>

text \<open>
  C8. The resolution of the options fails when one of them is a startup or shutdown
  timeout whose payload is a duration below 1 (zero or negative) or is not a duration at
  all. When the options before it resolve, the error is the validation error of that
  timeout (``... timeout must be positive'') for a duration, and the type error
  (``failed to cast ...'') otherwise. On such a failure \<^verbatim>\<open>Start\<close> has returned before
  any goroutine is started: in every run the exit reason holds the resolution error as
  \<^verbatim>\<open>ErrStartup\<close> and nothing else, and no startup or shutdown step is ever invoked.
\<close>

theorem timeout_option_resolution:
  assumes "code ob = optionStartupTimeout \<or> code ob = optionShutdownTimeout"
    and "\<forall>v. payload ob = Duration v \<longrightarrow> v < 1"
    and "Start st sd (pre @ ob # post) rte0 sched = Some s"
  shows "(\<exists>e. snd (parseOptions default_config (pre @ ob # post)) = Some e \<and>
            main s = MReturned \<and> er s = er0\<lparr> ErrStartup := Some e \<rparr> \<and>
            st_invoked s = [] \<and> sd_invoked s = []) \<and>
         (\<exists>s0. Start st sd (pre @ ob # post) rte0 [] = Some s0 \<and> main s0 = MReturned) \<and>
         (snd (parseOptions default_config pre) = None \<longrightarrow>
            snd (parseOptions default_config (pre @ ob # post)) =
              Some (Errorf (case payload ob of
                              Duration v \<Rightarrow>
                                if code ob = optionStartupTimeout
                                then ''startup timeout must be positive''
                                else ''shutdown timeout must be positive''
                            | _ \<Rightarrow> ''failed to cast StartupTimeout to time.Duration'')))"
proof -
  let ?opts = "pre @ ob # post"
  have "snd (parseOptions default_config ?opts) \<noteq> None"
    by (rule parseOptions_bad_timeout[of ob]) (use assms(1,2) in simp_all)
  then obtain c e where parse: "parseOptions default_config ?opts = (c, Some e)"
    by (cases "parseOptions default_config ?opts") auto
  have first: "main s = MReturned \<and> er s = er0\<lparr> ErrStartup := Some e \<rparr> \<and>
      st_invoked s = [] \<and> sd_invoked s = []"
    using parse assms(3) by (rule resolution_failure_returns)
  have second: "\<exists>s0. Start st sd ?opts rte0 [] = Some s0 \<and> main s0 = MReturned"
    using parse by (simp add: Start_def Start_init_def)
  have third: "snd (parseOptions default_config ?opts) =
      Some (Errorf (case payload ob of
                      Duration v \<Rightarrow>
                        if code ob = optionStartupTimeout
                        then ''startup timeout must be positive''
                        else ''shutdown timeout must be positive''
                    | _ \<Rightarrow> ''failed to cast StartupTimeout to time.Duration''))"
    if "snd (parseOptions default_config pre) = None"
  proof -
    from that obtain c' where "parseOptions default_config pre = (c', None)"
      by (cases "parseOptions default_config pre") auto
    then have "parseOptions default_config ?opts = parseOptions c' (ob # post)"
      by (rule parseOptions_append)
    with assms(1,2) show ?thesis
      by (auto simp: optionStartupTimeout_def optionShutdownTimeout_def split: any.splits)
  qed
  from parse first second third show ?thesis by auto
qed

theorem timeout_option_resolution_witness:
  "\<exists>s. Start [\<lambda>c. Returns None] [\<lambda>c. Returns None]
          ([WithSignals []] @ WithShutdownTimeout 0 # [WithStartupTimeout 7]) []
          [CallShutdown None] = Some s \<and>
       main s = MReturned \<and>
       er s = er0\<lparr> ErrStartup := Some (Errorf ''shutdown timeout must be positive'') \<rparr> \<and>
       st_invoked s = [] \<and> sd_invoked s = []"
proof -
  have "case Start [\<lambda>c. Returns None] [\<lambda>c. Returns None]
          ([WithSignals []] @ WithShutdownTimeout 0 # [WithStartupTimeout 7]) []
          [CallShutdown None] of None \<Rightarrow> False | Some s \<Rightarrow> True"
    by code_simp
  then obtain s where run: "Start [\<lambda>c. Returns None] [\<lambda>c. Returns None]
          ([WithSignals []] @ WithShutdownTimeout 0 # [WithStartupTimeout 7]) []
          [CallShutdown None] = Some s"
    by (auto split: option.splits)
  have ok: "snd (parseOptions default_config [WithSignals []]) = None"
    by (simp add: WithSignals_def optionSignals_def optionStartupTimeout_def
        optionShutdownTimeout_def)
  have "code (WithShutdownTimeout 0) = optionStartupTimeout \<or>
      code (WithShutdownTimeout 0) = optionShutdownTimeout"
    and "\<forall>v. payload (WithShutdownTimeout 0) = Duration v \<longrightarrow> v < 1"
    by (simp_all add: WithShutdownTimeout_def)
  from timeout_option_resolution[OF this run] ok run show ?thesis
    by (auto simp: WithShutdownTimeout_def optionStartupTimeout_def optionShutdownTimeout_def)
qed

section \<open>The fan-out of no function\<close>

text \<open>
  C9. The step that \<^verbatim>\<open>Multi\<close> returns for zero functions returns nil at once, whatever the
  context, also one that is cancelled or expired already: its loop runs zero times, so
  the \<^verbatim>\<open>select\<close> on the context is never reached.
\<close>

theorem Multi_no_functions:
  "(\<exists>s. Multi [] c [] = Some s \<and> mmain s = MultiReturned None) \<and>
   (\<forall>sched s. Multi [] c sched = Some s \<longrightarrow> mmain s = MultiReturned None)"
proof -
  have init: "mmain (Multi_init [] c) = MultiReturned None"
    by (simp add: Multi_init_def multi_loop_def)
  have "mmain s = MultiReturned None" if "Multi [] c sched = Some s" for sched s
    using that unfolding Multi_def
    by (rule Multi_exec_invariant) (rule init, rule multi_returned_stable)
  with init show ?thesis by (simp add: Multi_def)
qed

theorem Multi_no_functions_witness:
  "(\<exists>s. Multi [] (WithTimeout (Some Canceled)) [] = Some s \<and> mmain s = MultiReturned None) \<and>
   (\<exists>s. Multi [] (WithTimeout None) [CtxFire, CtxCancel] = Some s \<and>
      mctx s = WithTimeout (Some DeadlineExceeded) \<and> mmain s = MultiReturned None)"
proof -
  have "case Multi [] (WithTimeout None) [CtxFire, CtxCancel] of
          None \<Rightarrow> False | Some s \<Rightarrow> mctx s = WithTimeout (Some DeadlineExceeded)"
    by code_simp
  then obtain s where run: "Multi [] (WithTimeout None) [CtxFire, CtxCancel] = Some s"
    and "mctx s = WithTimeout (Some DeadlineExceeded)"
    by (auto split: option.splits)
  with Multi_no_functions[of "WithTimeout None"]
    Multi_no_functions[of "WithTimeout (Some Canceled)"]
  show ?thesis by blast
qed

section \<open>The shutdown errors are never nil\<close>

text \<open>
  C10. Every element of the \<^verbatim>\<open>ErrsShutdown\<close> list of an exit reason of \<^verbatim>\<open>Start\<close> is
  non-nil, in every state of every run: a nil result of a shutdown step is not appended,
  and the error of the shutdown context is appended only once that context is done. So
  \<^verbatim>\<open>ToPrintable\<close> never calls \<^verbatim>\<open>Error()\<close> on a nil error.
\<close>

theorem shutdown_errors_non_nil:
  assumes "Start st sd opts rte0 sched = Some s"
  shows "(\<forall>e \<in> set (ErrsShutdown (er s)). e \<noteq> None) \<and> ToPrintable (er s) \<noteq> None"
proof -
  have nn: "None \<notin> set (ErrsShutdown (er s))"
    using assms by (rule errs_non_nil_run)
  have all: "\<forall>e \<in> set (ErrsShutdown (er s)). e \<noteq> None"
    using nn by metis
  have "render_errs (ErrsShutdown (er s)) [] \<noteq> None"
    using nn by (rule render_errs_non_nil)
  with all show ?thesis
    by (simp add: ToPrintable_def split: option.splits)
qed

theorem shutdown_errors_non_nil_witness:
  "\<exists>s. Start [] [\<lambda>c. Returns None, \<lambda>c. Returns (Some (UserError ''flush'')), \<lambda>c. Blocked]
          [WithShutdownTimeout 5] []
          [StWorker, MainRecv, MainSignal syscall_SIGTERM, SdWorker, SdWorker, SdWorker,
           MainRecv, SdWorker, SdWorker, SdWorker, MainRecv, SdWorker, FireShutdown,
           MainDone] = Some s \<and>
       ErrsShutdown (er s) = [Some (UserError ''flush''), Some DeadlineExceeded] \<and>
       None \<notin> set (ErrsShutdown (er s)) \<and> ToPrintable (er s) \<noteq> None"
proof -
  have "case Start [] [\<lambda>c. Returns None, \<lambda>c. Returns (Some (UserError ''flush'')),
            \<lambda>c. Blocked] [WithShutdownTimeout 5] []
          [StWorker, MainRecv, MainSignal syscall_SIGTERM, SdWorker, SdWorker, SdWorker,
           MainRecv, SdWorker, SdWorker, SdWorker, MainRecv, SdWorker, FireShutdown,
           MainDone] of
          None \<Rightarrow> False
        | Some s \<Rightarrow> ErrsShutdown (er s) = [Some (UserError ''flush''), Some DeadlineExceeded]"
    by code_simp
  then obtain s where run: "Start [] [\<lambda>c. Returns None,
        \<lambda>c. Returns (Some (UserError ''flush'')), \<lambda>c. Blocked] [WithShutdownTimeout 5] []
          [StWorker, MainRecv, MainSignal syscall_SIGTERM, SdWorker, SdWorker, SdWorker,
           MainRecv, SdWorker, SdWorker, SdWorker, MainRecv, SdWorker, FireShutdown,
           MainDone] = Some s"
    and errs: "ErrsShutdown (er s) = [Some (UserError ''flush''), Some DeadlineExceeded]"
    by (auto split: option.splits)
  from shutdown_errors_non_nil[OF run] errs run show ?thesis by auto
qed

end
